theory Spec2Isabelle
  imports Main
begin

section \<open>Errors, positions, nodes\<close>

text \<open>
  The library signals every failure by throwing one error class, \<^verbatim>\<open>ADSError\<close>, with a
  message. The model tells the throwing places apart by a tag. For the containers the
  tags are the kinds the specification names: \<^verbatim>\<open>new ADSError('List is empty')\<close> is
  \<open>EmptyContainer\<close>, the failure of \<^verbatim>\<open>validate\<close> is \<open>InvalidPosition\<close>, and the trees
  fail with \<open>NotEmpty\<close> and \<open>SlotOccupied\<close>. For \<^verbatim>\<open>quickSelect\<close>,
  \<^verbatim>\<open>'Can not select from an empty array'\<close> is \<open>EmptyArray\<close> and
  \<^verbatim>\<open>'Can not select item from outside of the array bounds'\<close> is \<open>OutOfBounds\<close>.
\<close>

datatype error =
  EmptyContainer | InvalidPosition | NotEmpty | SlotOccupied | EmptyArray | OutOfBounds

text \<open>
  Objects live in a store: a node is addressed by its index in the list of all nodes the
  container ever allocated, \<^verbatim>\<open>new Node(...)\<close> appends to that list, and a reference
  \<^verbatim>\<open>Node | undefined\<close> is a \<open>nat option\<close>. Nodes are never taken out of the store
  (garbage collection cannot be observed), so an address is never reused.

  A \<^verbatim>\<open>Position\<close> is the pair that \<^verbatim>\<open>createPosition(node)\<close> builds: the node and the
  container that made it. Containers are told apart by an identity number.
\<close>

record position =
  p_node :: nat
  p_container :: nat

record 'a snode =
  s_element :: 'a
  s_next :: "nat option"

record 'a dnode =
  d_element :: 'a
  d_next :: "nat option"
  d_prev :: "nat option"


section \<open>Singly linked list\<close>

record 'a sll =
  s_store :: "'a snode list"
  s_head :: "nat option"
  s_tail :: "nat option"
  s_size :: int
  s_ident :: nat

text \<open>
  Modelled from the spec: the constructor of \<^verbatim>\<open>PositionalListAbstract\<close> (its file is not
  part of the sources). A new list has no head, no tail and size zero.
\<close>

definition s_empty :: "nat \<Rightarrow> 'a sll" where
  "s_empty i = \<lparr>s_store = [], s_head = None, s_tail = None, s_size = 0, s_ident = i\<rparr>"

text \<open>
  Modelled from the spec: \<^verbatim>\<open>createPosition\<close> of \<^verbatim>\<open>PositionalListAbstract\<close>: a handle made
  of the node and the owning container.
\<close>

definition s_createPosition :: "'a sll \<Rightarrow> nat \<Rightarrow> position" where
  "s_createPosition l node = \<lparr>p_node = node, p_container = s_ident l\<rparr>"

text \<open>\<^verbatim>\<open>isDeprecated(node)\<close>: \<^verbatim>\<open>node.next === node\<close>.\<close>

definition s_isDeprecated :: "'a sll \<Rightarrow> nat \<Rightarrow> bool" where
  "s_isDeprecated l node = (s_next (s_store l ! node) = Some node)"

text \<open>
  Modelled from the spec: \<^verbatim>\<open>validate\<close> of \<^verbatim>\<open>PositionalListAbstract\<close>. It fails with
  \<open>InvalidPosition\<close> when the position's container is not the validating container or
  when the node is deprecated, has no side effect, and returns the node otherwise. A
  reference always denotes an object of the program; a handle whose address was never
  allocated in this store therefore is no position of this container, and is refused
  like a foreign one.
\<close>

definition s_validate :: "'a sll \<Rightarrow> position \<Rightarrow> error + nat" where
  "s_validate l p =
     (if p_container p \<noteq> s_ident l then Inl InvalidPosition
      else if length (s_store l) \<le> p_node p then Inl InvalidPosition
      else if s_isDeprecated l (p_node p) then Inl InvalidPosition
      else Inr (p_node p))"

text \<open>
  Every operation returns its result, or the error it throws, together with the state of
  the list when it returns or throws.
\<close>

definition s_addAfter :: "'a sll \<Rightarrow> position \<Rightarrow> 'a \<Rightarrow> (error + position) \<times> 'a sll" where
  "s_addAfter l p e =
     (case s_validate l p of
        Inl err \<Rightarrow> (Inl err, l)
      | Inr node \<Rightarrow>
          let new = length (s_store l);
              st0 = s_store l @ [\<lparr>s_element = e, s_next = s_next (s_store l ! node)\<rparr>];
              st1 = st0[node := (st0 ! node)\<lparr>s_next := Some new\<rparr>];
              l1 = l\<lparr>s_store := st1\<rparr>;
              l2 = (if Some node = s_tail l1 then l1\<lparr>s_tail := s_next (st1 ! node)\<rparr> else l1);
              l3 = l2\<lparr>s_size := s_size l2 + 1\<rparr>
          in (Inr (s_createPosition l3 new), l3))"

definition s_addFirst :: "'a sll \<Rightarrow> 'a \<Rightarrow> position \<times> 'a sll" where
  "s_addFirst l e =
     (let new = length (s_store l);
          l1 = (case s_head l of
                  None \<Rightarrow> l\<lparr>s_store := s_store l @ [\<lparr>s_element = e, s_next = None\<rparr>],
                             s_head := Some new, s_tail := Some new\<rparr>
                | Some h \<Rightarrow> l\<lparr>s_store := s_store l @ [\<lparr>s_element = e, s_next = Some h\<rparr>],
                               s_head := Some new\<rparr>);
          l2 = l1\<lparr>s_size := s_size l1 + 1\<rparr>
      in (s_createPosition l2 new, l2))"

definition s_addLast :: "'a sll \<Rightarrow> 'a \<Rightarrow> position \<times> 'a sll" where
  "s_addLast l e =
     (let new = length (s_store l);
          st0 = s_store l @ [\<lparr>s_element = e, s_next = None\<rparr>];
          l1 = (case s_tail l of
                  None \<Rightarrow> l\<lparr>s_store := st0, s_head := Some new, s_tail := Some new\<rparr>
                | Some t \<Rightarrow> l\<lparr>s_store := st0[t := (st0 ! t)\<lparr>s_next := Some new\<rparr>],
                               s_tail := Some new\<rparr>);
          l2 = l1\<lparr>s_size := s_size l1 + 1\<rparr>
      in (s_createPosition l2 new, l2))"

text \<open>
  The loop of \<^verbatim>\<open>clear\<close>: \<^verbatim>\<open>while (node) { next = node.next; node.next = node; node = next }\<close>.
  It does not return on a store where the walk closes a cycle, so its result is optional.
\<close>

partial_function (option) s_clear_loop :: "'a snode list \<Rightarrow> nat option \<Rightarrow> 'a snode list option" where
  "s_clear_loop st node =
     (case node of
        None \<Rightarrow> Some st
      | Some a \<Rightarrow> s_clear_loop (st[a := (st ! a)\<lparr>s_next := Some a\<rparr>]) (s_next (st ! a)))"

definition s_clear :: "'a sll \<Rightarrow> bool \<Rightarrow> 'a sll option" where
  "s_clear l instant =
     (if \<not> instant \<and> s_head l \<noteq> None
      then map_option (\<lambda>st. l\<lparr>s_store := st, s_tail := None, s_head := None, s_size := 0\<rparr>)
             (s_clear_loop (s_store l) (s_head l))
      else Some (l\<lparr>s_tail := None, s_head := None, s_size := 0\<rparr>))"

definition s_getAfter :: "'a sll \<Rightarrow> position \<Rightarrow> (error + position option) \<times> 'a sll" where
  "s_getAfter l p =
     (case s_validate l p of
        Inl err \<Rightarrow> (Inl err, l)
      | Inr node \<Rightarrow> (Inr (map_option (s_createPosition l) (s_next (s_store l ! node))), l))"

definition s_getFirst :: "'a sll \<Rightarrow> position option" where
  "s_getFirst l = (case s_head l of Some h \<Rightarrow> Some (s_createPosition l h) | None \<Rightarrow> None)"

definition s_getLast :: "'a sll \<Rightarrow> position option" where
  "s_getLast l = (case s_tail l of Some t \<Rightarrow> Some (s_createPosition l t) | None \<Rightarrow> None)"

definition s_removeFirst :: "'a sll \<Rightarrow> (error + 'a) \<times> 'a sll" where
  "s_removeFirst l =
     (case s_head l of
        None \<Rightarrow> (Inl EmptyContainer, l)
      | Some h \<Rightarrow>
          let l1 = l\<lparr>s_head := s_next (s_store l ! h)\<rparr>;
              l2 = (if s_head l1 = None then l1\<lparr>s_tail := None\<rparr> else l1);
              l3 = l2\<lparr>s_store := (s_store l2)[h := (s_store l2 ! h)\<lparr>s_next := Some h\<rparr>]\<rparr>;
              l4 = l3\<lparr>s_size := s_size l3 - 1\<rparr>
          in (Inr (s_element (s_store l4 ! h)), l4))"

definition s_replace :: "'a sll \<Rightarrow> position \<Rightarrow> 'a \<Rightarrow> (error + 'a) \<times> 'a sll" where
  "s_replace l p e =
     (case s_validate l p of
        Inl err \<Rightarrow> (Inl err, l)
      | Inr node \<Rightarrow>
          (Inr (s_element (s_store l ! node)),
           l\<lparr>s_store := (s_store l)[node := (s_store l ! node)\<lparr>s_element := e\<rparr>]\<rparr>))"

text \<open>
  The iterator: the elements met by following \<^verbatim>\<open>next\<close> from the head. On a cyclic store
  it never finishes; the result is the finite sequence it yields when it does.
\<close>

partial_function (option) s_iterate_from :: "'a snode list \<Rightarrow> nat option \<Rightarrow> 'a list option" where
  "s_iterate_from st node =
     (case node of
        None \<Rightarrow> Some []
      | Some a \<Rightarrow>
          Option.bind (s_iterate_from st (s_next (st ! a))) (\<lambda>r. Some (s_element (st ! a) # r)))"

definition s_iterator :: "'a sll \<Rightarrow> 'a list option" where
  "s_iterator l = (if s_head l = None then Some [] else s_iterate_from (s_store l) (s_head l))"

text \<open>The constructor: \<^verbatim>\<open>for (const el of elements) this.addLast(el)\<close> on a new list.\<close>

definition SinglyLinkedList :: "nat \<Rightarrow> 'a list \<Rightarrow> 'a sll" where
  "SinglyLinkedList i elements = fold (\<lambda>el l. snd (s_addLast l el)) elements (s_empty i)"


section \<open>Doubly linked list\<close>

record 'a dll =
  d_store :: "'a dnode list"
  d_head :: "nat option"
  d_tail :: "nat option"
  d_size :: int
  d_ident :: nat

text \<open>
  Modelled from the spec: the constructor, \<^verbatim>\<open>createPosition\<close> and \<^verbatim>\<open>validate\<close> of
  \<^verbatim>\<open>PositionalListAbstract\<close>, as for the singly linked list.
\<close>

definition d_empty :: "nat \<Rightarrow> 'a dll" where
  "d_empty i = \<lparr>d_store = [], d_head = None, d_tail = None, d_size = 0, d_ident = i\<rparr>"

definition d_createPosition :: "'a dll \<Rightarrow> nat \<Rightarrow> position" where
  "d_createPosition l node = \<lparr>p_node = node, p_container = d_ident l\<rparr>"

definition d_isDeprecated :: "'a dll \<Rightarrow> nat \<Rightarrow> bool" where
  "d_isDeprecated l node = (d_next (d_store l ! node) = Some node)"

definition d_validate :: "'a dll \<Rightarrow> position \<Rightarrow> error + nat" where
  "d_validate l p =
     (if p_container p \<noteq> d_ident l then Inl InvalidPosition
      else if length (d_store l) \<le> p_node p then Inl InvalidPosition
      else if d_isDeprecated l (p_node p) then Inl InvalidPosition
      else Inr (p_node p))"

definition d_insertBetween :: "'a dll \<Rightarrow> 'a \<Rightarrow> nat option \<Rightarrow> nat option \<Rightarrow> nat \<times> 'a dll" where
  "d_insertBetween l e pred succ =
     (let node = length (d_store l);
          l0 = l\<lparr>d_store := d_store l @ [\<lparr>d_element = e, d_next = succ, d_prev = pred\<rparr>]\<rparr>;
          l1 = (case pred of
                  Some p \<Rightarrow> l0\<lparr>d_store := (d_store l0)[p := (d_store l0 ! p)\<lparr>d_next := Some node\<rparr>]\<rparr>
                | None \<Rightarrow> l0\<lparr>d_head := Some node\<rparr>);
          l2 = (case succ of
                  Some s \<Rightarrow> l1\<lparr>d_store := (d_store l1)[s := (d_store l1 ! s)\<lparr>d_prev := Some node\<rparr>]\<rparr>
                | None \<Rightarrow> l1\<lparr>d_tail := Some node\<rparr>);
          l3 = l2\<lparr>d_size := d_size l2 + 1\<rparr>
      in (node, l3))"

definition d_deleteNode :: "'a dll \<Rightarrow> nat \<Rightarrow> 'a \<times> 'a dll" where
  "d_deleteNode l node =
     (let pred = d_prev (d_store l ! node);
          succ = d_next (d_store l ! node);
          l1 = (case pred of
                  Some p \<Rightarrow> l\<lparr>d_store := (d_store l)[p := (d_store l ! p)\<lparr>d_next := succ\<rparr>]\<rparr>
                | None \<Rightarrow> l\<lparr>d_head := succ\<rparr>);
          l2 = (case succ of
                  Some s \<Rightarrow> l1\<lparr>d_store := (d_store l1)[s := (d_store l1 ! s)\<lparr>d_prev := pred\<rparr>]\<rparr>
                | None \<Rightarrow> l1\<lparr>d_tail := pred\<rparr>);
          l3 = l2\<lparr>d_store := (d_store l2)[node := (d_store l2 ! node)\<lparr>d_next := Some node, d_prev := Some node\<rparr>]\<rparr>;
          l4 = l3\<lparr>d_size := d_size l3 - 1\<rparr>
      in (d_element (d_store l4 ! node), l4))"

definition d_addAfter :: "'a dll \<Rightarrow> position \<Rightarrow> 'a \<Rightarrow> (error + position) \<times> 'a dll" where
  "d_addAfter l p e =
     (case d_validate l p of
        Inl err \<Rightarrow> (Inl err, l)
      | Inr node \<Rightarrow>
          let (new, l') = d_insertBetween l e (Some node) (d_next (d_store l ! node))
          in (Inr (d_createPosition l' new), l'))"

definition d_addBefore :: "'a dll \<Rightarrow> position \<Rightarrow> 'a \<Rightarrow> (error + position) \<times> 'a dll" where
  "d_addBefore l p e =
     (case d_validate l p of
        Inl err \<Rightarrow> (Inl err, l)
      | Inr node \<Rightarrow>
          let (new, l') = d_insertBetween l e (d_prev (d_store l ! node)) (Some node)
          in (Inr (d_createPosition l' new), l'))"

definition d_addFirst :: "'a dll \<Rightarrow> 'a \<Rightarrow> position \<times> 'a dll" where
  "d_addFirst l e =
     (let (new, l') = d_insertBetween l e None (d_head l) in (d_createPosition l' new, l'))"

definition d_addLast :: "'a dll \<Rightarrow> 'a \<Rightarrow> position \<times> 'a dll" where
  "d_addLast l e =
     (let (new, l') = d_insertBetween l e (d_tail l) None in (d_createPosition l' new, l'))"

partial_function (option) d_clear_loop :: "'a dnode list \<Rightarrow> nat option \<Rightarrow> 'a dnode list option" where
  "d_clear_loop st node =
     (case node of
        None \<Rightarrow> Some st
      | Some a \<Rightarrow> d_clear_loop (st[a := (st ! a)\<lparr>d_next := Some a\<rparr>]) (d_next (st ! a)))"

definition d_clear :: "'a dll \<Rightarrow> bool \<Rightarrow> 'a dll option" where
  "d_clear l instant =
     (if \<not> instant \<and> d_head l \<noteq> None
      then map_option (\<lambda>st. l\<lparr>d_store := st, d_tail := None, d_head := None, d_size := 0\<rparr>)
             (d_clear_loop (d_store l) (d_head l))
      else Some (l\<lparr>d_tail := None, d_head := None, d_size := 0\<rparr>))"

definition d_delete :: "'a dll \<Rightarrow> position \<Rightarrow> (error + 'a) \<times> 'a dll" where
  "d_delete l p =
     (case d_validate l p of
        Inl err \<Rightarrow> (Inl err, l)
      | Inr node \<Rightarrow> (let (el, l') = d_deleteNode l node in (Inr el, l')))"

definition d_getAfter :: "'a dll \<Rightarrow> position \<Rightarrow> (error + position option) \<times> 'a dll" where
  "d_getAfter l p =
     (case d_validate l p of
        Inl err \<Rightarrow> (Inl err, l)
      | Inr node \<Rightarrow> (Inr (map_option (d_createPosition l) (d_next (d_store l ! node))), l))"

definition d_getBefore :: "'a dll \<Rightarrow> position \<Rightarrow> (error + position option) \<times> 'a dll" where
  "d_getBefore l p =
     (case d_validate l p of
        Inl err \<Rightarrow> (Inl err, l)
      | Inr node \<Rightarrow> (Inr (map_option (d_createPosition l) (d_prev (d_store l ! node))), l))"

definition d_getFirst :: "'a dll \<Rightarrow> position option" where
  "d_getFirst l = (case d_head l of Some h \<Rightarrow> Some (d_createPosition l h) | None \<Rightarrow> None)"

definition d_getLast :: "'a dll \<Rightarrow> position option" where
  "d_getLast l = (case d_tail l of Some t \<Rightarrow> Some (d_createPosition l t) | None \<Rightarrow> None)"

definition d_removeFirst :: "'a dll \<Rightarrow> (error + 'a) \<times> 'a dll" where
  "d_removeFirst l =
     (case d_head l of
        None \<Rightarrow> (Inl EmptyContainer, l)
      | Some h \<Rightarrow> (let (el, l') = d_deleteNode l h in (Inr el, l')))"

definition d_removeLast :: "'a dll \<Rightarrow> (error + 'a) \<times> 'a dll" where
  "d_removeLast l =
     (case d_tail l of
        None \<Rightarrow> (Inl EmptyContainer, l)
      | Some t \<Rightarrow> (let (el, l') = d_deleteNode l t in (Inr el, l')))"

definition d_replace :: "'a dll \<Rightarrow> position \<Rightarrow> 'a \<Rightarrow> (error + 'a) \<times> 'a dll" where
  "d_replace l p e =
     (case d_validate l p of
        Inl err \<Rightarrow> (Inl err, l)
      | Inr node \<Rightarrow>
          (Inr (d_element (d_store l ! node)),
           l\<lparr>d_store := (d_store l)[node := (d_store l ! node)\<lparr>d_element := e\<rparr>]\<rparr>))"

partial_function (option) d_iterate_from :: "'a dnode list \<Rightarrow> nat option \<Rightarrow> 'a list option" where
  "d_iterate_from st node =
     (case node of
        None \<Rightarrow> Some []
      | Some a \<Rightarrow>
          Option.bind (d_iterate_from st (d_next (st ! a))) (\<lambda>r. Some (d_element (st ! a) # r)))"

definition d_iterator :: "'a dll \<Rightarrow> 'a list option" where
  "d_iterator l = (if d_head l = None then Some [] else d_iterate_from (d_store l) (d_head l))"

definition DoublyLinkedList :: "nat \<Rightarrow> 'a list \<Rightarrow> 'a dll" where
  "DoublyLinkedList i elements = fold (\<lambda>el l. snd (d_addLast l el)) elements (d_empty i)"


section \<open>Quick select\<close>

text \<open>
  The comparator module is not part of the sources: a comparator is any function into the
  three results, and the \<^verbatim>\<open>switch\<close> of \<^verbatim>\<open>quickSelect\<close> puts every result that is neither
  \<^verbatim>\<open>LESS\<close> nor \<^verbatim>\<open>GREATER\<close> into \<^verbatim>\<open>equal\<close>.
\<close>

datatype ComparisonResult = LESS | EQUAL | GREATER

type_synonym 'a IComparator = "'a \<Rightarrow> 'a \<Rightarrow> ComparisonResult"

text \<open>Reading an array out of range gives \<^verbatim>\<open>undefined\<close>, here \<open>None\<close>.\<close>

definition js_index :: "'a list \<Rightarrow> nat \<Rightarrow> 'a option" where
  "js_index xs i = (if i < length xs then Some (xs ! i) else None)"

text \<open>
  The loop of \<^verbatim>\<open>quickSelect\<close>. \<^verbatim>\<open>Math.floor(Math.random() * _arr.length)\<close> is some index
  below the length: the model draws the \<open>k\<close>-th pivot index from an arbitrary sequence
  \<open>rnd\<close> of naturals, reduced into that range. \<open>n\<close> is \<^verbatim>\<open>_n\<close>, an integer. The loop
  may run forever (when the comparator never shrinks the array), so its result is
  optional; inside, the value returned is itself optional, as \<^verbatim>\<open>_arr[0]\<close> is.
\<close>

partial_function (option) quickSelect_loop ::
  "'a IComparator \<Rightarrow> (nat \<Rightarrow> nat) \<Rightarrow> nat \<Rightarrow> 'a list \<Rightarrow> int \<Rightarrow> 'a option option" where
  "quickSelect_loop compare rnd k arr n =
     (if 1 < length arr then
        let pivot = arr ! (rnd k mod length arr);
            less = filter (\<lambda>item. compare item pivot = LESS) arr;
            equal = filter (\<lambda>item. compare item pivot \<noteq> LESS \<and> compare item pivot \<noteq> GREATER) arr;
            greater = filter (\<lambda>item. compare item pivot \<noteq> LESS \<and> compare item pivot = GREATER) arr
        in if n \<le> int (length less) then quickSelect_loop compare rnd (k + 1) less n
           else if n \<le> int (length less) + int (length equal) then Some (Some pivot)
           else quickSelect_loop compare rnd (k + 1) greater (n - (int (length less) + int (length equal)))
      else Some (js_index arr 0))"

declare quickSelect_loop.simps [code]

definition quickSelect ::
  "'a list \<Rightarrow> int \<Rightarrow> 'a IComparator \<Rightarrow> (nat \<Rightarrow> nat) \<Rightarrow> (error + 'a option) option" where
  "quickSelect arr n compare rnd =
     (if length arr = 0 then Some (Inl EmptyArray)
      else if n < 0 \<or> int (length arr) \<le> n then Some (Inl OutOfBounds)
      else map_option Inr (quickSelect_loop compare rnd 0 arr (n + 1)))"

text \<open>
  Modelled from the spec: \<^verbatim>\<open>compareAsNumbers\<close>, the default comparator (not part of the
  sources), "items are compared as numbers"; here on integers.
\<close>

definition compareAsNumbers :: "int IComparator" where
  "compareAsNumbers a b = (if a < b then LESS else if b < a then GREATER else EQUAL)"


section \<open>Binary tree and preorder traversal\<close>

text \<open>
  Modelled from the spec: the concrete binary tree behind the abstract class
  \<^verbatim>\<open>BinaryTree\<close> (no implementation is part of the sources). A tree is absent or a node
  with an element and two child slots; a position is the path from the root.
  \<^verbatim>\<open>addRoot\<close> fails with \<open>NotEmpty\<close> when the tree has a root; \<^verbatim>\<open>addLeft\<close> and
  \<^verbatim>\<open>addRight\<close> validate the position and fail with \<open>SlotOccupied\<close> when the child
  exists.
\<close>

datatype 'a btree = Absent | BNode "'a btree" 'a "'a btree"

datatype side = ToLeft | ToRight

type_synonym tposition = "side list"

fun addRoot :: "'a btree \<Rightarrow> 'a \<Rightarrow> (error + tposition) \<times> 'a btree" where
  "addRoot Absent e = (Inr [], BNode Absent e Absent)"
| "addRoot (BNode l x r) e = (Inl NotEmpty, BNode l x r)"

fun graft :: "'a btree \<Rightarrow> tposition \<Rightarrow> side \<Rightarrow> 'a \<Rightarrow> error + 'a btree" where
  "graft Absent p s e = Inl InvalidPosition"
| "graft (BNode Absent x r) [] ToLeft e = Inr (BNode (BNode Absent e Absent) x r)"
| "graft (BNode l x Absent) [] ToRight e = Inr (BNode l x (BNode Absent e Absent))"
| "graft (BNode l x r) [] s e = Inl SlotOccupied"
| "graft (BNode l x r) (ToLeft # p) s e =
     (case graft l p s e of Inl err \<Rightarrow> Inl err | Inr l' \<Rightarrow> Inr (BNode l' x r))"
| "graft (BNode l x r) (ToRight # p) s e =
     (case graft r p s e of Inl err \<Rightarrow> Inl err | Inr r' \<Rightarrow> Inr (BNode l x r'))"

definition addLeft :: "'a btree \<Rightarrow> tposition \<Rightarrow> 'a \<Rightarrow> (error + tposition) \<times> 'a btree" where
  "addLeft t p e =
     (case graft t p ToLeft e of Inl err \<Rightarrow> (Inl err, t) | Inr t' \<Rightarrow> (Inr (p @ [ToLeft]), t'))"

definition addRight :: "'a btree \<Rightarrow> tposition \<Rightarrow> 'a \<Rightarrow> (error + tposition) \<times> 'a btree" where
  "addRight t p e =
     (case graft t p ToRight e of Inl err \<Rightarrow> (Inl err, t) | Inr t' \<Rightarrow> (Inr (p @ [ToRight]), t'))"

text \<open>
  Modelled from the spec: the \<^verbatim>\<open>IBinaryTreeTraversable\<close> views the tree hands to a
  traversal (\<^verbatim>\<open>traversal.class\<close> is not part of the sources). A view exposes the element,
  the index, the position and the navigation to the child views. The index is recomputed
  per traversal call and numbers the views in the order the traversal obtains them,
  starting at 0: one counter per traversal call, read and advanced whenever a view is
  made.
\<close>

record 'a traversable =
  t_element :: 'a
  t_index :: nat
  t_position :: tposition
  t_below :: "'a btree \<times> 'a btree"

fun getTraversable :: "'a btree \<Rightarrow> tposition \<Rightarrow> nat \<Rightarrow> ('a traversable \<times> nat) option" where
  "getTraversable Absent p c = None"
| "getTraversable (BNode l x r) p c =
     Some (\<lparr>t_element = x, t_index = c, t_position = p, t_below = (l, r)\<rparr>, c + 1)"

definition getLeft :: "'a traversable \<Rightarrow> nat \<Rightarrow> ('a traversable \<times> nat) option" where
  "getLeft t c = getTraversable (fst (t_below t)) (t_position t @ [ToLeft]) c"

definition getRight :: "'a traversable \<Rightarrow> nat \<Rightarrow> ('a traversable \<times> nat) option" where
  "getRight t c = getTraversable (snd (t_below t)) (t_position t @ [ToRight]) c"

text \<open>
  The visitor callback is an effect: the traversal state records its invocations in
  order, each with the element, the \<^verbatim>\<open>{index}\<close> metadata and the position it was given.
\<close>

record 'a call =
  c_element :: 'a
  c_index :: nat
  c_position :: tposition

record 'a traversal =
  counter :: nat
  calls :: "'a call list"

definition callback :: "'a \<Rightarrow> nat \<Rightarrow> tposition \<Rightarrow> 'a traversal \<Rightarrow> 'a traversal" where
  "callback e i p s = s\<lparr>calls := calls s @ [\<lparr>c_element = e, c_index = i, c_position = p\<rparr>]\<rparr>"

text \<open>\<^verbatim>\<open>PreorderTreeTraversal.traverseBinary\<close>.\<close>

function traverseBinary :: "'a traversable \<Rightarrow> 'a traversal \<Rightarrow> 'a traversal" where
  "traverseBinary traversable s =
     (let s1 = callback (t_element traversable) (t_index traversable) (t_position traversable) s;
          s2 = (case getLeft traversable (counter s1) of
                  Some traversableChild \<Rightarrow>
                    traverseBinary (fst traversableChild) (s1\<lparr>counter := snd traversableChild\<rparr>)
                | None \<Rightarrow> s1)
      in (case getRight traversable (counter s2) of
            Some traversableChild \<Rightarrow>
              traverseBinary (fst traversableChild) (s2\<lparr>counter := snd traversableChild\<rparr>)
          | None \<Rightarrow> s2))"
  by pat_completeness auto
termination
  apply (relation "measure (\<lambda>(t, s). size (fst (t_below t)) + size (snd (t_below t)))")
    apply simp
  subgoal for traversable s x xa
    by (cases "fst (t_below traversable)") (auto simp: getLeft_def)
  subgoal for traversable s x xa y
    by (cases "snd (t_below traversable)") (auto simp: getRight_def)
  done

text \<open>
  Modelled from the spec: a preorder traversal of a whole tree starts from the view of the
  root with a new counter; an empty tree yields no invocation.
\<close>

definition traversePreorder :: "'a btree \<Rightarrow> 'a call list" where
  "traversePreorder tree =
     (case getTraversable tree [] 0 of
        None \<Rightarrow> []
      | Some traversable \<Rightarrow>
          calls (traverseBinary (fst traversable) \<lparr>counter = snd traversable, calls = []\<rparr>))"

declare traverseBinary.simps [simp del]

text \<open>
  The order the specification words: the node first, then the left subtree, then the
  right subtree; \<open>preorder_calls\<close> adds the position and the running index.
\<close>

fun preorder :: "'a btree \<Rightarrow> 'a list" where
  "preorder Absent = []"
| "preorder (BNode l x r) = x # preorder l @ preorder r"

fun preorder_calls :: "'a btree \<Rightarrow> tposition \<Rightarrow> nat \<Rightarrow> 'a call list" where
  "preorder_calls Absent p c = []"
| "preorder_calls (BNode l x r) p c =
     \<lparr>c_element = x, c_index = c, c_position = p\<rparr>
       # preorder_calls l (p @ [ToLeft]) (c + 1)
       @ preorder_calls r (p @ [ToRight]) (c + 1 + length (preorder l))"


section \<open>Sequences of calls and the vocabulary of the properties\<close>

text \<open>
  The remaining definitions are not code of the library. They name what the properties
  speak about: the calls a client can make in sequence, the nodes met by following
  \<^verbatim>\<open>next\<close> from the head, and the shape the links of a well-formed list have.
\<close>

text \<open>
  The first address of a list of addresses, or \<open>q\<close> when it is empty; the last one, or
  \<open>p\<close>.
\<close>

definition first_of :: "nat list \<Rightarrow> nat option \<Rightarrow> nat option" where
  "first_of xs q = (case xs of [] \<Rightarrow> q | y # _ \<Rightarrow> Some y)"

definition last_of :: "nat option \<Rightarrow> nat list \<Rightarrow> nat option" where
  "last_of p xs = (if xs = [] then p else Some (last xs))"

text \<open>
  The nodes reachable from a node by following \<^verbatim>\<open>next\<close>, in order: the addresses the
  iterator visits. Like the iterator, the walk has no result on a cyclic store.
\<close>

partial_function (option) s_walk :: "'a snode list \<Rightarrow> nat option \<Rightarrow> nat list option" where
  "s_walk st node =
     (case node of
        None \<Rightarrow> Some []
      | Some a \<Rightarrow> Option.bind (s_walk st (s_next (st ! a))) (\<lambda>r. Some (a # r)))"

text \<open>
  \<open>s_seg st xs q\<close>: the nodes \<open>xs\<close> are allocated, each points to the next one, and the
  last one points to \<open>q\<close>. \<open>s_abs l xs\<close>: the list \<open>l\<close> consists of the distinct nodes
  \<open>xs\<close>, from its head to its tail.
\<close>

fun s_seg :: "'a snode list \<Rightarrow> nat list \<Rightarrow> nat option \<Rightarrow> bool" where
  "s_seg st [] q = True"
| "s_seg st (x # xs) q = (x < length st \<and> s_next (st ! x) = first_of xs q \<and> s_seg st xs q)"

definition s_abs :: "'a sll \<Rightarrow> nat list \<Rightarrow> bool" where
  "s_abs l xs =
     (distinct xs \<and> s_seg (s_store l) xs None \<and>
      s_head l = first_of xs None \<and> s_tail l = last_of None xs)"

text \<open>The store after the loop of \<^verbatim>\<open>clear\<close> has walked the nodes \<open>xs\<close>.\<close>

fun s_mark :: "'a snode list \<Rightarrow> nat list \<Rightarrow> 'a snode list" where
  "s_mark st [] = st"
| "s_mark st (a # as) = s_mark (st[a := (st ! a)\<lparr>s_next := Some a\<rparr>]) as"

text \<open>
  The calls that can change a singly linked list, and what a sequence of them leaves
  behind. A call that throws leaves the list in the state it threw in, and the sequence
  goes on (the caller may catch the error). The calls that only read (\<^verbatim>\<open>getAfter\<close>,
  \<^verbatim>\<open>getFirst\<close>, \<^verbatim>\<open>getLast\<close>, the iterator) return the list as it is and are not listed.
  A sequence has no result when a call does not return.
\<close>

datatype 'a s_op =
  S_addAfter position 'a | S_addFirst 'a | S_addLast 'a | S_clear bool | S_removeFirst
  | S_replace position 'a

fun s_step :: "'a sll \<Rightarrow> 'a s_op \<Rightarrow> 'a sll option" where
  "s_step l (S_addAfter p e) = Some (snd (s_addAfter l p e))"
| "s_step l (S_addFirst e) = Some (snd (s_addFirst l e))"
| "s_step l (S_addLast e) = Some (snd (s_addLast l e))"
| "s_step l (S_clear instant) = s_clear l instant"
| "s_step l S_removeFirst = Some (snd (s_removeFirst l))"
| "s_step l (S_replace p e) = Some (snd (s_replace l p e))"

fun s_run :: "'a sll \<Rightarrow> 'a s_op list \<Rightarrow> 'a sll option" where
  "s_run l [] = Some l"
| "s_run l (op # ops) = (case s_step l op of None \<Rightarrow> None | Some l' \<Rightarrow> s_run l' ops)"

text \<open>
  \<open>s_strict l xs\<close>: moreover the size is the number of the nodes \<open>xs\<close> and every other
  allocated node is deprecated. \<open>s_counting\<close> marks the calls that add or remove an
  element.
\<close>

definition s_strict :: "'a sll \<Rightarrow> nat list \<Rightarrow> bool" where
  "s_strict l xs =
     (s_abs l xs \<and> s_size l = int (length xs) \<and>
      (\<forall>a<length (s_store l). a \<notin> set xs \<longrightarrow> s_next (s_store l ! a) = Some a))"

fun s_counting :: "'a s_op \<Rightarrow> bool" where
  "s_counting (S_addAfter p e) = True"
| "s_counting (S_addFirst e) = True"
| "s_counting (S_addLast e) = True"
| "s_counting S_removeFirst = True"
| "s_counting (S_clear instant) = False"
| "s_counting (S_replace p e) = False"

text \<open>
  \<open>d_seg st p xs q\<close>: the nodes \<open>xs\<close> are allocated and linked in both directions, the
  first one has the predecessor \<open>p\<close> and the last one the successor \<open>q\<close>. A chain is
  such a segment closed at both ends, of distinct nodes. A node is live when it is
  allocated and not deprecated.
\<close>

fun d_seg :: "'a dnode list \<Rightarrow> nat option \<Rightarrow> nat list \<Rightarrow> nat option \<Rightarrow> bool" where
  "d_seg st p [] q = True"
| "d_seg st p (x # xs) q =
     (x < length st \<and> d_prev (st ! x) = p \<and> d_next (st ! x) = first_of xs q \<and>
      d_seg st (Some x) xs q)"

definition d_chain :: "'a dnode list \<Rightarrow> nat list \<Rightarrow> bool" where
  "d_chain st xs = (distinct xs \<and> d_seg st None xs None)"

definition d_live :: "'a dnode list \<Rightarrow> nat \<Rightarrow> bool" where
  "d_live st a = (a < length st \<and> d_next (st ! a) \<noteq> Some a)"

text \<open>
  The stores that \<^verbatim>\<open>insertBetween\<close> and \<^verbatim>\<open>deleteNode\<close> leave, written as functions of the
  store they start from.
\<close>

definition d_ins_store :: "'a dnode list \<Rightarrow> 'a \<Rightarrow> nat option \<Rightarrow> nat option \<Rightarrow> 'a dnode list" where
  "d_ins_store st e pred succ =
     (let n = length st;
          st0 = st @ [\<lparr>d_element = e, d_next = succ, d_prev = pred\<rparr>];
          st1 = (case pred of Some p \<Rightarrow> st0[p := (st0 ! p)\<lparr>d_next := Some n\<rparr>] | None \<Rightarrow> st0)
      in (case succ of Some s \<Rightarrow> st1[s := (st1 ! s)\<lparr>d_prev := Some n\<rparr>] | None \<Rightarrow> st1))"

definition d_del_store :: "'a dnode list \<Rightarrow> nat \<Rightarrow> 'a dnode list" where
  "d_del_store st a =
     (let pred = d_prev (st ! a);
          succ = d_next (st ! a);
          st1 = (case pred of Some p \<Rightarrow> st[p := (st ! p)\<lparr>d_next := succ\<rparr>] | None \<Rightarrow> st);
          st2 = (case succ of Some s \<Rightarrow> st1[s := (st1 ! s)\<lparr>d_prev := pred\<rparr>] | None \<Rightarrow> st1)
      in st2[a := (st2 ! a)\<lparr>d_next := Some a, d_prev := Some a\<rparr>])"

text \<open>
  \<open>d_abs l xs\<close>: the chain \<open>xs\<close> runs from the head of \<open>l\<close> to its tail. \<open>d_inv l\<close>: every
  live node lies on a chain, the head is a live node without predecessor and the tail a
  live node without successor; this holds in every state a doubly linked list can reach.
  \<open>d_strict l xs\<close>: moreover the nodes \<open>xs\<close> are all the live nodes and the size is their
  number; this holds as long as the list is not cleared with \<^verbatim>\<open>instant = true\<close>.
\<close>

definition d_abs :: "'a dll \<Rightarrow> nat list \<Rightarrow> bool" where
  "d_abs l xs =
     (d_chain (d_store l) xs \<and> d_head l = first_of xs None \<and> d_tail l = last_of None xs)"

definition d_inv :: "'a dll \<Rightarrow> bool" where
  "d_inv l =
     ((\<forall>a. d_live (d_store l) a \<longrightarrow> (\<exists>xs. d_chain (d_store l) xs \<and> a \<in> set xs)) \<and>
      (\<forall>h. d_head l = Some h \<longrightarrow> d_live (d_store l) h \<and> d_prev (d_store l ! h) = None) \<and>
      (\<forall>t. d_tail l = Some t \<longrightarrow> d_live (d_store l) t \<and> d_next (d_store l ! t) = None))"

definition d_strict :: "'a dll \<Rightarrow> nat list \<Rightarrow> bool" where
  "d_strict l xs =
     (d_abs l xs \<and> d_size l = int (length xs) \<and> (\<forall>a. d_live (d_store l) a \<longrightarrow> a \<in> set xs))"

text \<open>The doubly linked list: the walk of \<^verbatim>\<open>clear\<close>, the nodes met from the head, the calls.\<close>

fun d_mark :: "'a dnode list \<Rightarrow> nat list \<Rightarrow> 'a dnode list" where
  "d_mark st [] = st"
| "d_mark st (a # as) = d_mark (st[a := (st ! a)\<lparr>d_next := Some a\<rparr>]) as"

partial_function (option) d_walk :: "'a dnode list \<Rightarrow> nat option \<Rightarrow> nat list option" where
  "d_walk st node =
     (case node of
        None \<Rightarrow> Some []
      | Some a \<Rightarrow> Option.bind (d_walk st (d_next (st ! a))) (\<lambda>r. Some (a # r)))"

datatype 'a d_op =
  D_addAfter position 'a | D_addBefore position 'a | D_addFirst 'a | D_addLast 'a
  | D_clear bool | D_delete position | D_removeFirst | D_removeLast | D_replace position 'a

fun d_step :: "'a dll \<Rightarrow> 'a d_op \<Rightarrow> 'a dll option" where
  "d_step l (D_addAfter p e) = Some (snd (d_addAfter l p e))"
| "d_step l (D_addBefore p e) = Some (snd (d_addBefore l p e))"
| "d_step l (D_addFirst e) = Some (snd (d_addFirst l e))"
| "d_step l (D_addLast e) = Some (snd (d_addLast l e))"
| "d_step l (D_clear instant) = d_clear l instant"
| "d_step l (D_delete p) = Some (snd (d_delete l p))"
| "d_step l D_removeFirst = Some (snd (d_removeFirst l))"
| "d_step l D_removeLast = Some (snd (d_removeLast l))"
| "d_step l (D_replace p e) = Some (snd (d_replace l p e))"

fun d_run :: "'a dll \<Rightarrow> 'a d_op list \<Rightarrow> 'a dll option" where
  "d_run l [] = Some l"
| "d_run l (op # ops) = (case d_step l op of None \<Rightarrow> None | Some l' \<Rightarrow> d_run l' ops)"

text \<open>The tail is the last node met from the head (and absent when there is none).\<close>

definition s_tail_is_last :: "'a sll \<Rightarrow> bool" where
  "s_tail_is_last l = (\<exists>xs. s_walk (s_store l) (s_head l) = Some xs \<and> s_tail l = last_of None xs)"

definition d_tail_is_last :: "'a dll \<Rightarrow> bool" where
  "d_tail_is_last l = (\<exists>xs. d_walk (d_store l) (d_head l) = Some xs \<and> d_tail l = last_of None xs)"

fun d_counting :: "'a d_op \<Rightarrow> bool" where
  "d_counting (D_addAfter p e) = True"
| "d_counting (D_addBefore p e) = True"
| "d_counting (D_addFirst e) = True"
| "d_counting (D_addLast e) = True"
| "d_counting (D_delete p) = True"
| "d_counting D_removeFirst = True"
| "d_counting D_removeLast = True"
| "d_counting (D_clear instant) = False"
| "d_counting (D_replace p e) = False"

text \<open>
  A position is dead in a list when its node is deprecated there and validation refuses
  it after every further sequence of calls. The positions other than \<open>p\<close> that were valid
  in \<open>l\<close> are live in \<open>l'\<close> when they validate there and \<^verbatim>\<open>replace\<close> returns their
  element.
\<close>

definition s_position_dead :: "'a sll \<Rightarrow> position \<Rightarrow> bool" where
  "s_position_dead l p =
     (s_isDeprecated l (p_node p) \<and>
      (\<forall>ops l'. s_run l ops = Some l' \<longrightarrow> s_validate l' p = Inl InvalidPosition))"

definition s_others_live :: "'a sll \<Rightarrow> 'a sll \<Rightarrow> position \<Rightarrow> bool" where
  "s_others_live l l' p =
     (\<forall>q b y. s_validate l q = Inr b \<and> q \<noteq> p \<longrightarrow>
        s_validate l' q = Inr b \<and> fst (s_replace l' q y) = Inr (s_element (s_store l ! b)))"

definition d_position_dead :: "'a dll \<Rightarrow> position \<Rightarrow> bool" where
  "d_position_dead l p =
     (d_isDeprecated l (p_node p) \<and>
      (\<forall>ops l'. d_run l ops = Some l' \<longrightarrow> d_validate l' p = Inl InvalidPosition))"

definition d_others_live :: "'a dll \<Rightarrow> 'a dll \<Rightarrow> position \<Rightarrow> bool" where
  "d_others_live l l' p =
     (\<forall>q b y. d_validate l q = Inr b \<and> q \<noteq> p \<longrightarrow>
        d_validate l' q = Inr b \<and> fst (d_replace l' q y) = Inr (d_element (d_store l ! b)))"


text \<open>The loops defined as partial functions run by their defining equations.\<close>

declare s_clear_loop.simps [code] s_iterate_from.simps [code] s_walk.simps [code]
  d_clear_loop.simps [code] d_iterate_from.simps [code] d_walk.simps [code]


section \<open>The empty list\<close>

text \<open>
  C4: on a newly constructed empty list, singly or doubly linked, \<^verbatim>\<open>removeFirst\<close> (and
  \<^verbatim>\<open>removeLast\<close>, which only the doubly linked list has) fails with \<open>EmptyContainer\<close>,
  while \<^verbatim>\<open>getFirst\<close> and \<^verbatim>\<open>getLast\<close> return the absent value; they have no throwing
  path at all.
\<close>

theorem empty_container_law:
  "fst (s_removeFirst (SinglyLinkedList i [])) = Inl EmptyContainer \<and>
   s_getFirst (SinglyLinkedList i []) = None \<and>
   s_getLast (SinglyLinkedList i []) = None \<and>
   fst (d_removeFirst (DoublyLinkedList j [])) = Inl EmptyContainer \<and>
   fst (d_removeLast (DoublyLinkedList j [])) = Inl EmptyContainer \<and>
   d_getFirst (DoublyLinkedList j []) = None \<and>
   d_getLast (DoublyLinkedList j []) = None"
  by (simp add: SinglyLinkedList_def DoublyLinkedList_def s_empty_def d_empty_def
      s_removeFirst_def s_getFirst_def s_getLast_def
      d_removeFirst_def d_removeLast_def d_getFirst_def d_getLast_def)


section \<open>Preorder traversal: properties\<close>

lemma preorder_calls_element: "map c_element (preorder_calls t p c) = preorder t"
  by (induction t arbitrary: p c) auto

lemma preorder_calls_length: "length (preorder_calls t p c) = length (preorder t)"
  by (induction t arbitrary: p c) auto

lemma upt_split3:
  "[c ..< c + Suc (a + b)] = c # [Suc c ..< Suc c + a] @ [Suc c + a ..< Suc c + a + b]"
proof -
  have "[Suc c ..< (Suc c + a) + b] = [Suc c ..< Suc c + a] @ [Suc c + a ..< Suc c + a + b]"
    by (rule upt_add_eq_append) simp
  moreover have "[c ..< c + Suc (a + b)] = c # [Suc c ..< c + Suc (a + b)]"
    by (rule upt_conv_Cons) simp
  moreover have "c + Suc (a + b) = (Suc c + a) + b" by simp
  ultimately show ?thesis by (simp only:)
qed

lemma preorder_calls_index:
  "map c_index (preorder_calls t p c) = [c ..< c + length (preorder t)]"
proof (induction t arbitrary: p c)
  case Absent
  show ?case by simp
next
  case (BNode l x r)
  show ?case
    using upt_split3[of c "length (preorder l)" "length (preorder r)"]
    by (simp add: BNode.IH)
qed

lemma traverseBinary_calls:
  "getTraversable t p c0 = Some (tr, c) \<Longrightarrow>
   traverseBinary tr \<lparr>counter = c, calls = cs\<rparr>
     = \<lparr>counter = c0 + length (preorder t), calls = cs @ preorder_calls t p c0\<rparr>"
proof (induction t arbitrary: p c0 tr c cs)
  case Absent
  then show ?case by simp
next
  case (BNode l x r)
  from BNode.prems have tr: "tr = \<lparr>t_element = x, t_index = c0, t_position = p, t_below = (l, r)\<rparr>"
    and c: "c = c0 + 1" by auto
  define s1 where "s1 = \<lparr>counter = c, calls = cs @ [\<lparr>c_element = x, c_index = c0, c_position = p\<rparr>]\<rparr>"
  define s2 where "s2 = \<lparr>counter = c + length (preorder l),
      calls = calls s1 @ preorder_calls l (p @ [ToLeft]) c\<rparr>"
  have left: "(case getLeft tr (counter s1) of
                  Some traversableChild \<Rightarrow>
                    traverseBinary (fst traversableChild) (s1\<lparr>counter := snd traversableChild\<rparr>)
                | None \<Rightarrow> s1) = s2"
  proof (cases l)
    case Absent
    then show ?thesis by (simp add: getLeft_def tr s1_def s2_def)
  next
    case (BNode ll lx lr)
    then obtain trl cl where g: "getTraversable l (p @ [ToLeft]) c = Some (trl, cl)" by simp
    show ?thesis
      using BNode.IH(1)[OF g, of "calls s1"] g
      by (simp add: getLeft_def tr s1_def s2_def)
  qed
  have right: "(case getRight tr (counter s2) of
                  Some traversableChild \<Rightarrow>
                    traverseBinary (fst traversableChild) (s2\<lparr>counter := snd traversableChild\<rparr>)
                | None \<Rightarrow> s2)
        = \<lparr>counter = c + length (preorder l) + length (preorder r),
           calls = calls s2 @ preorder_calls r (p @ [ToRight]) (c + length (preorder l))\<rparr>"
  proof (cases r)
    case Absent
    then show ?thesis by (simp add: getRight_def tr s2_def)
  next
    case (BNode rl rx rr)
    then obtain trr cr where g: "getTraversable r (p @ [ToRight]) (c + length (preorder l)) = Some (trr, cr)"
      by simp
    show ?thesis
      using BNode.IH(2)[OF g, of "calls s2"] g
      by (simp add: getRight_def tr s2_def)
  qed
  have cb: "callback (t_element tr) (t_index tr) (t_position tr) \<lparr>counter = c, calls = cs\<rparr> = s1"
    by (simp add: callback_def tr s1_def)
  have "traverseBinary tr \<lparr>counter = c, calls = cs\<rparr>
      = \<lparr>counter = c + length (preorder l) + length (preorder r),
         calls = calls s2 @ preorder_calls r (p @ [ToRight]) (c + length (preorder l))\<rparr>"
    by (subst traverseBinary.simps) (simp only: Let_def cb left right)
  then show ?case by (simp add: s2_def s1_def c)
qed

lemma traversePreorder_calls: "traversePreorder t = preorder_calls t [] 0"
proof (cases t)
  case Absent
  then show ?thesis by (simp add: traversePreorder_def)
next
  case (BNode l x r)
  then obtain tr c where g: "getTraversable t [] 0 = Some (tr, c)" by simp
  show ?thesis using traverseBinary_calls[OF g, of "[]"] g by (simp add: traversePreorder_def)
qed

text \<open>
  C7: for the tree built by \<^verbatim>\<open>addRoot(1)\<close>, \<^verbatim>\<open>addLeft(root,2)\<close>, \<^verbatim>\<open>addRight(root,3)\<close>,
  \<^verbatim>\<open>addLeft(pos(2),4)\<close>, preorder traversal invokes the callback exactly four times, on
  the elements 1, 2, 4, 3 in that order, with the indices 0, 1, 2, 3 (and the positions of
  those elements). In general \<^verbatim>\<open>traverseBinary\<close> visits the element of the current node
  first, then the left subtree if present, then the right subtree if present, and the
  indices count the visits from 0.
\<close>

theorem preorder_order_law:
  "(\<exists>root p2 p3 p4 t1 t2 t3 t4.
      addRoot Absent (1::int) = (Inr root, t1) \<and>
      addLeft t1 root 2 = (Inr p2, t2) \<and>
      addRight t2 root 3 = (Inr p3, t3) \<and>
      addLeft t3 p2 4 = (Inr p4, t4) \<and>
      length (traversePreorder t4) = 4 \<and>
      map c_element (traversePreorder t4) = [1, 2, 4, 3] \<and>
      map c_index (traversePreorder t4) = [0, 1, 2, 3] \<and>
      map c_position (traversePreorder t4) = [root, p2, p4, p3]) \<and>
   map c_element (traversePreorder (BNode l x r)) = x # preorder l @ preorder r \<and>
   map c_element (traversePreorder t) = preorder t \<and>
   map c_index (traversePreorder t) = [0 ..< length (preorder t)]"
proof -
  have general: "map c_index (traversePreorder t) = [0 ..< length (preorder t)]"
    using preorder_calls_index[of t "[]" 0] by (simp add: traversePreorder_calls)
  have built: "\<exists>root p2 p3 p4 t1 t2 t3 t4.
      addRoot Absent (1::int) = (Inr root, t1) \<and>
      addLeft t1 root 2 = (Inr p2, t2) \<and>
      addRight t2 root 3 = (Inr p3, t3) \<and>
      addLeft t3 p2 4 = (Inr p4, t4) \<and>
      length (traversePreorder t4) = 4 \<and>
      map c_element (traversePreorder t4) = [1, 2, 4, 3] \<and>
      map c_index (traversePreorder t4) = [0, 1, 2, 3] \<and>
      map c_position (traversePreorder t4) = [root, p2, p4, p3]"
    by (simp add: traversePreorder_calls addLeft_def addRight_def)
  show ?thesis
    using general built
    by (simp only: traversePreorder_calls preorder_calls_element preorder.simps simp_thms)
qed


section \<open>Quick select: properties\<close>

lemma three_way_length:
  "length (filter (\<lambda>x. f x = LESS) xs)
   + length (filter (\<lambda>x. f x \<noteq> LESS \<and> f x \<noteq> GREATER) xs)
   + length (filter (\<lambda>x. f x \<noteq> LESS \<and> f x = GREATER) xs) = length xs"
  by (induction xs) auto

lemma filter_drops_member:
  assumes "p \<in> set xs" and "\<not> P p"
  shows "length (filter P xs) < length xs"
  using assms by (induction xs) (auto simp: less_Suc_eq_le)

lemma quickSelect_loop_returns:
  assumes refl: "\<forall>x\<in>set arr. compare x x = EQUAL"
    and lo: "1 \<le> n" and hi: "n \<le> int (length arr)"
  shows "\<exists>x\<in>set arr. quickSelect_loop compare rnd k arr n = Some (Some x)"
  using assms
proof (induction "length arr" arbitrary: arr n k rule: less_induct)
  case less
  show ?case
  proof (cases "1 < length arr")
    case False
    with less.prems have "length arr = 1" by simp
    then obtain a where "arr = [a]" by (cases arr) auto
    then show ?thesis
      by (subst quickSelect_loop.simps) (simp add: js_index_def)
  next
    case True
    define pivot where "pivot = arr ! (rnd k mod length arr)"
    define ls where "ls = filter (\<lambda>item. compare item pivot = LESS) arr"
    define es where "es = filter (\<lambda>item. compare item pivot \<noteq> LESS \<and> compare item pivot \<noteq> GREATER) arr"
    define gs where "gs = filter (\<lambda>item. compare item pivot \<noteq> LESS \<and> compare item pivot = GREATER) arr"
    have "0 < length arr" using True by linarith
    then have "rnd k mod length arr < length arr" by (rule mod_less_divisor)
    then have pin: "pivot \<in> set arr" unfolding pivot_def by (rule nth_mem)
    then have pp: "compare pivot pivot = EQUAL" using less.prems(1) by blast
    have lsl: "length ls < length arr"
      unfolding ls_def using pin pp by (intro filter_drops_member[of pivot]) auto
    have gsl: "length gs < length arr"
      unfolding gs_def using pin pp by (intro filter_drops_member[of pivot]) auto
    have tot: "length ls + length es + length gs = length arr"
      unfolding ls_def es_def gs_def by (rule three_way_length)
    have unf: "quickSelect_loop compare rnd k arr n =
        (if n \<le> int (length ls) then quickSelect_loop compare rnd (k + 1) ls n
         else if n \<le> int (length ls) + int (length es) then Some (Some pivot)
         else quickSelect_loop compare rnd (k + 1) gs (n - (int (length ls) + int (length es))))"
      using True
      by (subst quickSelect_loop.simps) (simp add: Let_def pivot_def ls_def es_def gs_def)
    consider (L) "n \<le> int (length ls)"
      | (E) "\<not> n \<le> int (length ls)" "n \<le> int (length ls) + int (length es)"
      | (G) "\<not> n \<le> int (length ls)" "\<not> n \<le> int (length ls) + int (length es)"
      by blast
    then show ?thesis
    proof cases
      case L
      have "\<exists>x\<in>set ls. quickSelect_loop compare rnd (k + 1) ls n = Some (Some x)"
        using less.hyps[OF lsl] less.prems L by (auto simp: ls_def)
      then show ?thesis using L unf by (auto simp: ls_def)
    next
      case E
      then show ?thesis using unf pin by auto
    next
      case G
      have "\<exists>x\<in>set gs. quickSelect_loop compare rnd (k + 1) gs (n - (int (length ls) + int (length es))) = Some (Some x)"
        using less.hyps[OF gsl] less.prems G tot by (auto simp: gs_def)
      then show ?thesis using G unf by (auto simp: gs_def)
    qed
  qed
qed

text \<open>
  C10, as the code has it: \<^verbatim>\<open>quickSelect(arr, n, compare)\<close> raises an error exactly when
  \<open>arr\<close> is empty or \<open>n < 0\<close> or \<open>n \<ge> arr.length\<close>, whatever the comparator. For every
  integer \<open>n\<close> within the bounds and every comparator that answers \<^verbatim>\<open>EQUAL\<close> when an
  element of \<open>arr\<close> is compared with itself, it terminates and returns an element of
  \<open>arr\<close>, whatever pivots are drawn: the pivot is then in neither \<^verbatim>\<open>less\<close> nor
  \<^verbatim>\<open>greater\<close>, and each round returns or shrinks the array.
\<close>

theorem quickSelect_errors_and_result:
  "((\<exists>e. quickSelect arr n compare rnd = Some (Inl e)) \<longleftrightarrow>
      (arr = [] \<or> n < 0 \<or> int (length arr) \<le> n)) \<and>
   ((\<forall>x\<in>set arr. compare x x = EQUAL) \<and> 0 \<le> n \<and> n < int (length arr) \<longrightarrow>
      (\<exists>x\<in>set arr. quickSelect arr n compare rnd = Some (Inr (Some x))))"
proof (intro conjI impI)
  show "(\<exists>e. quickSelect arr n compare rnd = Some (Inl e)) \<longleftrightarrow>
      (arr = [] \<or> n < 0 \<or> int (length arr) \<le> n)"
    by (auto simp: quickSelect_def)
next
  assume a: "(\<forall>x\<in>set arr. compare x x = EQUAL) \<and> 0 \<le> n \<and> n < int (length arr)"
  then have "\<exists>x\<in>set arr. quickSelect_loop compare rnd 0 arr (n + 1) = Some (Some x)"
    by (intro quickSelect_loop_returns) auto
  with a show "\<exists>x\<in>set arr. quickSelect arr n compare rnd = Some (Inr (Some x))"
    by (auto simp: quickSelect_def)
qed

theorem quickSelect_errors_and_result_witness:
  "(\<exists>x\<in>set [3, 1, 2 :: int].
      quickSelect [3, 1, 2] 1 compareAsNumbers (\<lambda>k. k) = Some (Inr (Some x))) \<and>
   quickSelect [3, 1, 2 :: int] 1 compareAsNumbers (\<lambda>k. k) = Some (Inr (Some 2)) \<and>
   quickSelect [3, 1, 2 :: int] 3 compareAsNumbers (\<lambda>k. k) = Some (Inl OutOfBounds) \<and>
   quickSelect ([] :: int list) 0 compareAsNumbers (\<lambda>k. k) = Some (Inl EmptyArray)"
proof -
  have r: "\<forall>x\<in>set [3, 1, 2 :: int]. compareAsNumbers x x = EQUAL"
    by (simp add: compareAsNumbers_def)
  have "\<exists>x\<in>set [3, 1, 2 :: int].
      quickSelect [3, 1, 2] 1 compareAsNumbers (\<lambda>k. k) = Some (Inr (Some x))"
    using quickSelect_errors_and_result [of "[3, 1, 2]" 1 compareAsNumbers "\<lambda>k. k"] r by simp
  moreover have "quickSelect [3, 1, 2 :: int] 1 compareAsNumbers (\<lambda>k. k) = Some (Inr (Some 2))"
    by (simp add: quickSelect_def quickSelect_loop.simps compareAsNumbers_def Let_def)
  moreover have "quickSelect [3, 1, 2 :: int] 3 compareAsNumbers (\<lambda>k. k) = Some (Inl OutOfBounds)"
    by (simp add: quickSelect_def)
  moreover have "quickSelect ([] :: int list) 0 compareAsNumbers (\<lambda>k. k) = Some (Inl EmptyArray)"
    by (simp add: quickSelect_def)
  ultimately show ?thesis by blast
qed


section \<open>Singly linked list: the shape of the links\<close>

lemma first_of_simps [simp]:
  "first_of [] q = q" "first_of (x # xs) q = Some x"
  by (simp_all add: first_of_def)

lemma last_of_simps [simp]:
  "last_of p [] = p" "last_of p (xs @ [x]) = Some x" "last_of p (x # xs) = last_of (Some x) xs"
  by (simp_all add: last_of_def)

lemma first_of_append: "first_of (xs @ ys) q = first_of xs (first_of ys q)"
  by (cases xs) simp_all

lemma last_of_append: "last_of p (xs @ ys) = last_of (last_of p xs) ys"
  by (simp add: last_of_def)

lemma first_of_None: "first_of xs None = None \<longleftrightarrow> xs = []"
  by (cases xs) simp_all

lemma last_of_None: "last_of None xs = None \<longleftrightarrow> xs = []"
  by (simp add: last_of_def)

lemma s_seg_append:
  "s_seg st (xs @ ys) q \<longleftrightarrow> s_seg st xs (first_of ys q) \<and> s_seg st ys q"
  by (induction xs) (auto simp: first_of_append)

lemma s_seg_bound: "s_seg st xs q \<Longrightarrow> x \<in> set xs \<Longrightarrow> x < length st"
  by (induction xs) auto

lemma s_seg_frame:
  assumes "s_seg st xs q" and "\<And>x. x \<in> set xs \<Longrightarrow> s_next (st' ! x) = s_next (st ! x)"
    and "length st \<le> length st'"
  shows "s_seg st' xs q"
  using assms by (induction xs) auto

lemma s_seg_next:
  "s_seg st (ys @ a # zs) q \<Longrightarrow> s_next (st ! a) = first_of zs q"
  by (simp add: s_seg_append)

lemma s_seg_live:
  assumes "s_seg st xs None" "distinct xs" "a \<in> set xs"
  shows "s_next (st ! a) \<noteq> Some a"
proof -
  from assms(3) obtain ys zs where xs: "xs = ys @ a # zs" by (auto simp: in_set_conv_decomp)
  with assms(1) have "s_next (st ! a) = first_of zs None" by (simp add: s_seg_append)
  moreover have "a \<notin> set zs" using assms(2) xs by simp
  ultimately show ?thesis by (cases zs) auto
qed

lemma s_walk_None [simp]: "s_walk st None = Some []"
  by (subst s_walk.simps) simp

lemma s_walk_Some: "s_walk st (Some a) = Option.bind (s_walk st (s_next (st ! a))) (\<lambda>r. Some (a # r))"
  by (subst s_walk.simps) simp

lemma s_seg_walk: "s_seg st xs None \<Longrightarrow> s_walk st (first_of xs None) = Some xs"
  by (induction xs) (auto simp: s_walk_Some)

lemma s_iterate_from_None [simp]: "s_iterate_from st None = Some []"
  by (subst s_iterate_from.simps) simp

lemma s_iterate_from_Some:
  "s_iterate_from st (Some a) =
     Option.bind (s_iterate_from st (s_next (st ! a))) (\<lambda>r. Some (s_element (st ! a) # r))"
  by (subst s_iterate_from.simps) simp

lemma s_seg_iterate:
  "s_seg st xs None \<Longrightarrow>
   s_iterate_from st (first_of xs None) = Some (map (\<lambda>a. s_element (st ! a)) xs)"
  by (induction xs) (auto simp: s_iterate_from_Some)

lemma s_abs_walk: "s_abs l xs \<Longrightarrow> s_walk (s_store l) (s_head l) = Some xs"
  by (simp add: s_abs_def s_seg_walk)

lemma s_abs_unique: "s_abs l xs \<Longrightarrow> s_abs l ys \<Longrightarrow> xs = ys"
  by (metis s_abs_walk option.inject)

lemma s_abs_iterator:
  "s_abs l xs \<Longrightarrow> s_iterator l = Some (map (\<lambda>a. s_element (s_store l ! a)) xs)"
  using s_seg_iterate[of "s_store l" xs]
  by (auto simp: s_abs_def s_iterator_def first_of_None)

lemma s_abs_empty: "s_abs (s_empty i) []"
  by (simp add: s_abs_def s_empty_def)

lemma s_addFirst_fields:
  "s_store (snd (s_addFirst l e)) = s_store l @ [\<lparr>s_element = e, s_next = s_head l\<rparr>]"
  "s_head (snd (s_addFirst l e)) = Some (length (s_store l))"
  "s_tail (snd (s_addFirst l e)) = (if s_head l = None then Some (length (s_store l)) else s_tail l)"
  "s_size (snd (s_addFirst l e)) = s_size l + 1"
  "s_ident (snd (s_addFirst l e)) = s_ident l"
  "fst (s_addFirst l e) = \<lparr>p_node = length (s_store l), p_container = s_ident l\<rparr>"
  by (simp_all add: s_addFirst_def Let_def s_createPosition_def split: option.splits)

lemma s_addLast_fields:
  "s_store (snd (s_addLast l e)) =
     (case s_tail l of
        None \<Rightarrow> s_store l @ [\<lparr>s_element = e, s_next = None\<rparr>]
      | Some t \<Rightarrow> (s_store l @ [\<lparr>s_element = e, s_next = None\<rparr>])
                    [t := ((s_store l @ [\<lparr>s_element = e, s_next = None\<rparr>]) ! t)\<lparr>s_next := Some (length (s_store l))\<rparr>])"
  "s_head (snd (s_addLast l e)) = (if s_tail l = None then Some (length (s_store l)) else s_head l)"
  "s_tail (snd (s_addLast l e)) = Some (length (s_store l))"
  "s_size (snd (s_addLast l e)) = s_size l + 1"
  "s_ident (snd (s_addLast l e)) = s_ident l"
  "fst (s_addLast l e) = \<lparr>p_node = length (s_store l), p_container = s_ident l\<rparr>"
  by (simp_all add: s_addLast_def Let_def s_createPosition_def split: option.splits)

lemma s_absD:
  assumes "s_abs l xs"
  shows "distinct xs" "s_seg (s_store l) xs None"
    "s_head l = first_of xs None" "s_tail l = last_of None xs"
    "\<And>x. x \<in> set xs \<Longrightarrow> x < length (s_store l)"
  using assms s_seg_bound[of "s_store l" xs None] by (simp_all add: s_abs_def)

lemma s_absI:
  assumes "distinct xs" "s_seg (s_store l) xs None"
    "s_head l = first_of xs None" "s_tail l = last_of None xs"
  shows "s_abs l xs"
  using assms by (simp add: s_abs_def)

lemma s_seg_grow:
  assumes "s_seg st xs q" shows "s_seg (st @ ns) xs q"
  using assms by (induction xs) (auto simp: nth_append)

lemma s_seg_update:
  assumes "s_seg st xs q" "a \<notin> set xs" shows "s_seg (st[a := v]) xs q"
  using assms by (induction xs) auto

lemma s_abs_addFirst:
  assumes "s_abs l xs"
  shows "s_abs (snd (s_addFirst l e)) (length (s_store l) # xs)"
proof (rule s_absI)
  note d = s_absD[OF assms]
  show "distinct (length (s_store l) # xs)" using d(1) d(5) by auto
  show "s_seg (s_store (snd (s_addFirst l e))) (length (s_store l) # xs) None"
    using s_seg_grow[OF d(2)] d(3) by (simp add: s_addFirst_fields)
  show "s_head (snd (s_addFirst l e)) = first_of (length (s_store l) # xs) None"
    by (simp add: s_addFirst_fields)
  show "s_tail (snd (s_addFirst l e)) = last_of None (length (s_store l) # xs)"
    using d(3) d(4) by (cases xs) (simp_all add: s_addFirst_fields last_of_def)
qed

lemma s_abs_addLast:
  assumes "s_abs l xs"
  shows "s_abs (snd (s_addLast l e)) (xs @ [length (s_store l)])"
proof (cases xs rule: rev_cases)
  case Nil
  note d = s_absD[OF assms]
  show ?thesis using d(3) d(4) Nil
    by (intro s_absI) (simp_all add: s_addLast_fields)
next
  case (snoc ys t)
  note d = s_absD[OF assms]
  let ?n = "length (s_store l)"
  let ?st0 = "s_store l @ [\<lparr>s_element = e, s_next = None\<rparr>]"
  have tl: "s_tail l = Some t" using d(4) snoc by simp
  have hd: "s_head l = first_of (ys @ [t]) None" using d(3) snoc by simp
  have t: "t < ?n" "t \<notin> set ys" "distinct ys" using d(1) d(5) snoc by auto
  have st: "s_store (snd (s_addLast l e)) = ?st0[t := (?st0 ! t)\<lparr>s_next := Some ?n\<rparr>]"
    by (simp add: s_addLast_fields tl)
  have "s_seg (s_store l) ys (Some t)" using d(2) snoc by (simp add: s_seg_append)
  then have "s_seg (?st0[t := (?st0 ! t)\<lparr>s_next := Some ?n\<rparr>]) ys (Some t)"
    using t(2) by (intro s_seg_update s_seg_grow)
  then have seg: "s_seg (s_store (snd (s_addLast l e))) (ys @ [t, ?n]) None"
    using t(1) by (simp add: st s_seg_append nth_list_update nth_append)
  show ?thesis
  proof (rule s_absI)
    show "distinct (xs @ [?n])" using d(1) d(5) by auto
    show "s_seg (s_store (snd (s_addLast l e))) (xs @ [?n]) None" using seg snoc by simp
    show "s_head (snd (s_addLast l e)) = first_of (xs @ [?n]) None"
      using hd tl snoc by (simp add: s_addLast_fields first_of_append)
    show "s_tail (snd (s_addLast l e)) = last_of None (xs @ [?n])"
      by (simp add: s_addLast_fields)
  qed
qed

lemma s_validate_Inr:
  "s_validate l p = Inr a \<longleftrightarrow>
     p_container p = s_ident l \<and> p_node p = a \<and> a < length (s_store l) \<and>
     s_next (s_store l ! a) \<noteq> Some a"
  by (auto simp: s_validate_def s_isDeprecated_def)

lemma s_validate_Inl: "s_validate l p = Inl err \<Longrightarrow> err = InvalidPosition"
  by (auto simp: s_validate_def split: if_splits)

lemma s_addAfter_fields:
  assumes "s_validate l p = Inr a"
  shows
    "s_store (snd (s_addAfter l p e)) =
       (s_store l @ [\<lparr>s_element = e, s_next = s_next (s_store l ! a)\<rparr>])
         [a := (s_store l ! a)\<lparr>s_next := Some (length (s_store l))\<rparr>]"
    "s_head (snd (s_addAfter l p e)) = s_head l"
    "s_tail (snd (s_addAfter l p e)) = (if s_tail l = Some a then Some (length (s_store l)) else s_tail l)"
    "s_size (snd (s_addAfter l p e)) = s_size l + 1"
    "s_ident (snd (s_addAfter l p e)) = s_ident l"
    "fst (s_addAfter l p e) = Inr \<lparr>p_node = length (s_store l), p_container = s_ident l\<rparr>"
proof -
  have a: "a < length (s_store l)" using assms by (simp add: s_validate_Inr)
  show "s_store (snd (s_addAfter l p e)) =
       (s_store l @ [\<lparr>s_element = e, s_next = s_next (s_store l ! a)\<rparr>])
         [a := (s_store l ! a)\<lparr>s_next := Some (length (s_store l))\<rparr>]"
    using a by (simp add: s_addAfter_def assms Let_def nth_append)
  show "s_head (snd (s_addAfter l p e)) = s_head l"
    by (simp add: s_addAfter_def assms Let_def)
  show "s_tail (snd (s_addAfter l p e)) = (if s_tail l = Some a then Some (length (s_store l)) else s_tail l)"
    using a by (auto simp: s_addAfter_def assms Let_def nth_append)
  show "s_size (snd (s_addAfter l p e)) = s_size l + 1"
    by (simp add: s_addAfter_def assms Let_def)
  show "s_ident (snd (s_addAfter l p e)) = s_ident l"
    by (simp add: s_addAfter_def assms Let_def)
  show "fst (s_addAfter l p e) = Inr \<lparr>p_node = length (s_store l), p_container = s_ident l\<rparr>"
    by (simp add: s_addAfter_def assms Let_def s_createPosition_def)
qed

lemma s_addAfter_fail:
  assumes "s_validate l p = Inl err"
  shows "s_addAfter l p e = (Inl InvalidPosition, l)"
  using assms s_validate_Inl[OF assms] by (simp add: s_addAfter_def)

lemma s_abs_addAfter_in:
  assumes "s_abs l (ys @ a # zs)" and v: "s_validate l p = Inr a"
  shows "s_abs (snd (s_addAfter l p e)) (ys @ a # length (s_store l) # zs)"
proof -
  note d = s_absD[OF assms(1)]
  let ?n = "length (s_store l)"
  let ?new = "\<lparr>s_element = e, s_next = s_next (s_store l ! a)\<rparr>"
  let ?st' = "(s_store l @ [?new])[a := (s_store l ! a)\<lparr>s_next := Some ?n\<rparr>]"
  have a: "a < ?n" "a \<notin> set ys" "a \<notin> set zs" "?n \<notin> set ys" "?n \<notin> set zs"
    using d(1) d(5) by auto
  have nx: "s_next (s_store l ! a) = first_of zs None"
    using d(2) by (rule s_seg_next)
  have "s_seg (s_store l) ys (Some a)" using d(2) by (simp add: s_seg_append)
  then have 1: "s_seg ?st' ys (Some a)" using a(2) by (intro s_seg_update s_seg_grow)
  have "s_seg (s_store l) zs None" using d(2) by (simp add: s_seg_append)
  then have 2: "s_seg ?st' zs None" using a(3) by (intro s_seg_update s_seg_grow)
  have seg: "s_seg ?st' (ys @ a # ?n # zs) None"
    using 1 2 a(1) nx by (simp add: s_seg_append nth_list_update nth_append)
  show ?thesis
  proof (rule s_absI)
    show "distinct (ys @ a # ?n # zs)" using d(1) a by auto
    show "s_seg (s_store (snd (s_addAfter l p e))) (ys @ a # ?n # zs) None"
      using seg by (simp add: s_addAfter_fields[OF v])
    show "s_head (snd (s_addAfter l p e)) = first_of (ys @ a # ?n # zs) None"
      using d(3) by (simp add: s_addAfter_fields[OF v] first_of_append)
    show "s_tail (snd (s_addAfter l p e)) = last_of None (ys @ a # ?n # zs)"
    proof (cases zs rule: rev_cases)
      case Nil
      then show ?thesis using d(4) by (simp add: s_addAfter_fields[OF v] last_of_append)
    next
      case (snoc zs' z)
      then have "a \<noteq> z" using a(3) by auto
      then show ?thesis using d(4) snoc
        by (simp add: s_addAfter_fields[OF v] last_of_append)
    qed
  qed
qed

lemma s_abs_addAfter_out:
  assumes "s_abs l xs" and v: "s_validate l p = Inr a" and out: "a \<notin> set xs"
  shows "s_abs (snd (s_addAfter l p e)) xs"
proof (rule s_absI)
  note d = s_absD[OF assms(1)]
  show "distinct xs" by (rule d(1))
  show "s_seg (s_store (snd (s_addAfter l p e))) xs None"
    using d(2) out by (simp add: s_addAfter_fields[OF v] s_seg_update s_seg_grow)
  show "s_head (snd (s_addAfter l p e)) = first_of xs None"
    using d(3) by (simp add: s_addAfter_fields[OF v])
  have "s_tail l \<noteq> Some a" using d(4) out by (cases xs rule: rev_cases) auto
  then show "s_tail (snd (s_addAfter l p e)) = last_of None xs"
    using d(4) by (simp add: s_addAfter_fields[OF v])
qed

lemma s_removeFirst_fields:
  assumes "s_head l = Some h"
  shows
    "s_store (snd (s_removeFirst l)) = (s_store l)[h := (s_store l ! h)\<lparr>s_next := Some h\<rparr>]"
    "s_head (snd (s_removeFirst l)) = s_next (s_store l ! h)"
    "s_tail (snd (s_removeFirst l)) = (if s_next (s_store l ! h) = None then None else s_tail l)"
    "s_size (snd (s_removeFirst l)) = s_size l - 1"
    "s_ident (snd (s_removeFirst l)) = s_ident l"
    "h < length (s_store l) \<Longrightarrow> fst (s_removeFirst l) = Inr (s_element (s_store l ! h))"
  by (simp_all add: s_removeFirst_def assms Let_def)

lemma s_removeFirst_empty:
  assumes "s_head l = None"
  shows "s_removeFirst l = (Inl EmptyContainer, l)"
  by (simp add: s_removeFirst_def assms)

lemma s_abs_removeFirst:
  assumes "s_abs l (h # xs)"
  shows "s_abs (snd (s_removeFirst l)) xs"
proof (rule s_absI)
  note d = s_absD[OF assms]
  have hd: "s_head l = Some h" using d(3) by simp
  have nx: "s_next (s_store l ! h) = first_of xs None" using d(2) by simp
  show "distinct xs" using d(1) by simp
  show "s_seg (s_store (snd (s_removeFirst l))) xs None"
    using d(1) d(2) by (simp add: s_removeFirst_fields[OF hd] s_seg_update)
  show "s_head (snd (s_removeFirst l)) = first_of xs None"
    by (simp add: s_removeFirst_fields[OF hd] nx)
  show "s_tail (snd (s_removeFirst l)) = last_of None xs"
    using d(4) by (cases xs) (simp_all add: s_removeFirst_fields[OF hd] nx)
qed

lemma s_replace_fields:
  assumes "s_validate l p = Inr a"
  shows
    "s_store (snd (s_replace l p e)) = (s_store l)[a := (s_store l ! a)\<lparr>s_element := e\<rparr>]"
    "s_head (snd (s_replace l p e)) = s_head l"
    "s_tail (snd (s_replace l p e)) = s_tail l"
    "s_size (snd (s_replace l p e)) = s_size l"
    "s_ident (snd (s_replace l p e)) = s_ident l"
    "fst (s_replace l p e) = Inr (s_element (s_store l ! a))"
  by (simp_all add: s_replace_def assms)

lemma s_replace_fail:
  assumes "s_validate l p = Inl err"
  shows "s_replace l p e = (Inl InvalidPosition, l)"
  using assms s_validate_Inl[OF assms] by (simp add: s_replace_def)

lemma s_replace_next:
  assumes "s_validate l p = Inr a"
  shows "s_next (s_store (snd (s_replace l p e)) ! b) = s_next (s_store l ! b)"
    "length (s_store (snd (s_replace l p e))) = length (s_store l)"
  using assms
  by (cases "b = a"; simp add: s_replace_fields[OF assms] s_validate_Inr)+

lemma s_abs_replace:
  assumes "s_abs l xs"
  shows "s_abs (snd (s_replace l p e)) xs"
proof (cases "s_validate l p")
  case (Inl err)
  then show ?thesis using assms by (simp add: s_replace_fail)
next
  case (Inr a)
  note d = s_absD[OF assms]
  show ?thesis
  proof (rule s_absI)
    show "distinct xs" by (rule d(1))
    show "s_seg (s_store (snd (s_replace l p e))) xs None"
      by (rule s_seg_frame[OF d(2)]) (simp_all add: s_replace_next[OF Inr])
    show "s_head (snd (s_replace l p e)) = first_of xs None"
      using d(3) by (simp add: s_replace_fields[OF Inr])
    show "s_tail (snd (s_replace l p e)) = last_of None xs"
      using d(4) by (simp add: s_replace_fields[OF Inr])
  qed
qed

lemma s_clear_loop_None [simp]: "s_clear_loop st None = Some st"
  by (subst s_clear_loop.simps) simp

lemma s_clear_loop_Some:
  "s_clear_loop st (Some a) = s_clear_loop (st[a := (st ! a)\<lparr>s_next := Some a\<rparr>]) (s_next (st ! a))"
  by (subst s_clear_loop.simps) simp

lemma s_clear_loop_seg:
  "s_seg st xs None \<Longrightarrow> distinct xs \<Longrightarrow> s_clear_loop st (first_of xs None) = Some (s_mark st xs)"
proof (induction xs arbitrary: st)
  case Nil
  show ?case by simp
next
  case (Cons a as)
  let ?st = "st[a := (st ! a)\<lparr>s_next := Some a\<rparr>]"
  have "s_seg ?st as None" using Cons.prems by (intro s_seg_update) auto
  then have "s_clear_loop ?st (first_of as None) = Some (s_mark ?st as)"
    using Cons.prems by (intro Cons.IH) auto
  then show ?case using Cons.prems by (simp add: s_clear_loop_Some)
qed

lemma s_mark_length [simp]: "length (s_mark st xs) = length st"
  by (induction xs arbitrary: st) auto

lemma s_mark_out: "a \<notin> set xs \<Longrightarrow> s_mark st xs ! a = st ! a"
  by (induction xs arbitrary: st) auto

lemma s_mark_in:
  "a \<in> set xs \<Longrightarrow> \<forall>x\<in>set xs. x < length st \<Longrightarrow> s_next (s_mark st xs ! a) = Some a"
proof (induction xs arbitrary: st)
  case Nil
  then show ?case by simp
next
  case (Cons x xs)
  show ?case
  proof (cases "a \<in> set xs")
    case True
    then show ?thesis using Cons.prems by (simp add: Cons.IH)
  next
    case False
    then have "a = x" using Cons.prems by simp
    then show ?thesis using False Cons.prems by (simp add: s_mark_out)
  qed
qed

lemma s_mark_deprecated:
  "a < length st \<Longrightarrow> s_next (st ! a) = Some a \<Longrightarrow> s_next (s_mark st xs ! a) = Some a"
proof (induction xs arbitrary: st)
  case Nil
  then show ?case by simp
next
  case (Cons x xs)
  let ?st = "st[x := (st ! x)\<lparr>s_next := Some x\<rparr>]"
  have "a < length ?st" "s_next (?st ! a) = Some a"
    using Cons.prems by (cases "a = x"; simp)+
  then show ?case by (simp add: Cons.IH)
qed

lemma s_clear_abs:
  assumes "s_abs l xs"
  shows "s_clear l instant =
     Some (l\<lparr>s_store := (if instant then s_store l else s_mark (s_store l) xs),
             s_tail := None, s_head := None, s_size := 0\<rparr>)"
proof -
  note d = s_absD[OF assms]
  have lp: "s_clear_loop (s_store l) (s_head l) = Some (s_mark (s_store l) xs)"
    using s_clear_loop_seg[OF d(2) d(1)] d(3) by simp
  have e: "s_head l = None \<Longrightarrow> xs = []" using d(3) by (simp add: first_of_None)
  show ?thesis
  proof (cases "\<not> instant \<and> s_head l \<noteq> None")
    case True
    then show ?thesis by (simp add: s_clear_def lp)
  next
    case False
    then have "instant \<or> xs = []" using e by blast
    then show ?thesis using False by (auto simp: s_clear_def)
  qed
qed

lemma s_clear_fields:
  assumes "s_abs l xs"
  shows "\<exists>l'. s_clear l instant = Some l' \<and>
          s_store l' = (if instant then s_store l else s_mark (s_store l) xs) \<and>
          s_head l' = None \<and> s_tail l' = None \<and> s_size l' = 0 \<and> s_ident l' = s_ident l"
  by (simp add: s_clear_abs[OF assms])

lemma s_abs_Nil: "s_abs l [] \<longleftrightarrow> s_head l = None \<and> s_tail l = None"
  by (simp add: s_abs_def)

lemma s_abs_step:
  assumes "s_abs l xs"
  shows "\<exists>l' xs'. s_step l op = Some l' \<and> s_abs l' xs'"
proof (cases op)
  case (S_addAfter p e)
  show ?thesis
  proof (cases "s_validate l p")
    case (Inl err)
    then show ?thesis using assms S_addAfter by (auto simp: s_addAfter_fail)
  next
    case (Inr a)
    show ?thesis
    proof (cases "a \<in> set xs")
      case True
      then obtain ys zs where "xs = ys @ a # zs" by (auto simp: in_set_conv_decomp)
      then show ?thesis using s_abs_addAfter_in[OF _ Inr, of ys zs e] assms S_addAfter by auto
    next
      case False
      then show ?thesis using s_abs_addAfter_out[OF assms Inr False, of e] S_addAfter by auto
    qed
  qed
next
  case (S_addFirst e)
  then show ?thesis using s_abs_addFirst[OF assms, of e] by auto
next
  case (S_addLast e)
  then show ?thesis using s_abs_addLast[OF assms, of e] by auto
next
  case (S_clear instant)
  from s_clear_fields[OF assms, of instant] obtain l'
    where "s_clear l instant = Some l'" "s_head l' = None" "s_tail l' = None" by blast
  then show ?thesis using S_clear s_abs_Nil[of l'] by auto
next
  case S_removeFirst
  show ?thesis
  proof (cases xs)
    case Nil
    then have "s_head l = None" using s_absD(3)[OF assms] by simp
    then show ?thesis using assms S_removeFirst by (auto simp: s_removeFirst_empty)
  next
    case (Cons h xs')
    then show ?thesis using s_abs_removeFirst[of l h xs'] assms S_removeFirst by auto
  qed
next
  case (S_replace p e)
  then show ?thesis using s_abs_replace[OF assms, of p e] by auto
qed

lemma s_abs_run:
  assumes "s_abs l xs"
  shows "\<exists>l' xs'. s_run l ops = Some l' \<and> s_abs l' xs'"
  using assms
proof (induction ops arbitrary: l xs)
  case Nil
  then show ?case by auto
next
  case (Cons op ops)
  from s_abs_step[OF Cons.prems, of op] obtain l1 xs1
    where 1: "s_step l op = Some l1" "s_abs l1 xs1" by blast
  from Cons.IH[OF 1(2)] show ?case using 1(1) by simp
qed

lemma s_fold_addLast_abs:
  assumes "s_abs l xs"
  shows "\<exists>xs'. s_abs (fold (\<lambda>el l. snd (s_addLast l el)) els l) xs'"
  using assms
proof (induction els arbitrary: l xs)
  case Nil
  then show ?case by auto
next
  case (Cons e es)
  show ?case using Cons.IH[OF s_abs_addLast[OF Cons.prems, of e]] by simp
qed

lemma s_abs_new: "\<exists>xs. s_abs (SinglyLinkedList i els) xs"
  unfolding SinglyLinkedList_def by (rule s_fold_addLast_abs[OF s_abs_empty])

lemma s_reachable_abs:
  "\<exists>l' xs'. s_run (SinglyLinkedList i els) ops = Some l' \<and> s_abs l' xs'"
  using s_abs_new s_abs_run by blast

lemma s_strictD:
  assumes "s_strict l xs"
  shows "s_abs l xs" "s_size l = int (length xs)"
    "\<And>a. a < length (s_store l) \<Longrightarrow> a \<notin> set xs \<Longrightarrow> s_next (s_store l ! a) = Some a"
  using assms by (simp_all add: s_strict_def)

lemma s_strict_valid:
  assumes "s_strict l xs" "s_validate l p = Inr a"
  shows "a \<in> set xs"
  using assms s_strictD(3)[OF assms(1), of a] by (auto simp: s_validate_Inr)

lemma s_abs_valid:
  assumes "s_abs l xs" "a \<in> set xs"
  shows "s_validate l \<lparr>p_node = a, p_container = s_ident l\<rparr> = Inr a"
  using s_absD(5)[OF assms(1) assms(2)] s_seg_live[OF s_absD(2)[OF assms(1)] s_absD(1)[OF assms(1)] assms(2)]
  by (simp add: s_validate_Inr)

lemma s_strict_empty: "s_strict (s_empty i) []"
  by (simp add: s_strict_def s_abs_empty) (simp add: s_empty_def)

lemma s_strict_addFirst:
  assumes "s_strict l xs"
  shows "s_strict (snd (s_addFirst l e)) (length (s_store l) # xs)"
  unfolding s_strict_def
proof (intro conjI allI impI)
  note d = s_strictD[OF assms]
  show "s_abs (snd (s_addFirst l e)) (length (s_store l) # xs)" by (rule s_abs_addFirst[OF d(1)])
  show "s_size (snd (s_addFirst l e)) = int (length (length (s_store l) # xs))"
    by (simp add: s_addFirst_fields d(2))
  fix a assume "a < length (s_store (snd (s_addFirst l e)))" "a \<notin> set (length (s_store l) # xs)"
  then show "s_next (s_store (snd (s_addFirst l e)) ! a) = Some a"
    using d(3)[of a] by (simp add: s_addFirst_fields nth_append)
qed

lemma s_strict_addLast:
  assumes "s_strict l xs"
  shows "s_strict (snd (s_addLast l e)) (xs @ [length (s_store l)])"
  unfolding s_strict_def
proof (intro conjI allI impI)
  note d = s_strictD[OF assms]
  note b = s_absD[OF d(1)]
  show "s_abs (snd (s_addLast l e)) (xs @ [length (s_store l)])" by (rule s_abs_addLast[OF d(1)])
  show "s_size (snd (s_addLast l e)) = int (length (xs @ [length (s_store l)]))"
    by (simp add: s_addLast_fields d(2))
  fix a assume a: "a < length (s_store (snd (s_addLast l e)))" "a \<notin> set (xs @ [length (s_store l)])"
  have t: "s_tail l = Some t \<Longrightarrow> t \<in> set xs" for t
    using b(4) by (cases xs rule: rev_cases) auto
  show "s_next (s_store (snd (s_addLast l e)) ! a) = Some a"
  proof (cases "s_tail l")
    case None
    then show ?thesis using a d(3)[of a] by (simp add: s_addLast_fields nth_append)
  next
    case (Some t)
    then have "a \<noteq> t" using t a by auto
    then show ?thesis using a d(3)[of a] Some by (simp add: s_addLast_fields nth_append)
  qed
qed

lemma s_strict_addAfter:
  assumes "s_strict l xs"
  shows "\<exists>xs'. s_strict (snd (s_addAfter l p e)) xs'"
proof (cases "s_validate l p")
  case (Inl err)
  then show ?thesis using assms by (auto simp: s_addAfter_fail)
next
  case (Inr a)
  note d = s_strictD[OF assms]
  from s_strict_valid[OF assms Inr] obtain ys zs where xs: "xs = ys @ a # zs"
    by (auto simp: in_set_conv_decomp)
  have "s_strict (snd (s_addAfter l p e)) (ys @ a # length (s_store l) # zs)"
    unfolding s_strict_def
  proof (intro conjI allI impI)
    show "s_abs (snd (s_addAfter l p e)) (ys @ a # length (s_store l) # zs)"
      using d(1) xs by (intro s_abs_addAfter_in[OF _ Inr]) simp
    show "s_size (snd (s_addAfter l p e)) = int (length (ys @ a # length (s_store l) # zs))"
      by (simp add: s_addAfter_fields[OF Inr] d(2) xs)
    fix b assume b: "b < length (s_store (snd (s_addAfter l p e)))"
      "b \<notin> set (ys @ a # length (s_store l) # zs)"
    then show "s_next (s_store (snd (s_addAfter l p e)) ! b) = Some b"
      using d(3)[of b] xs by (simp add: s_addAfter_fields[OF Inr] nth_append)
  qed
  then show ?thesis by blast
qed

lemma s_strict_removeFirst:
  assumes "s_strict l xs"
  shows "s_strict (snd (s_removeFirst l)) (tl xs)"
proof (cases xs)
  case Nil
  then have "s_head l = None" using s_absD(3)[OF s_strictD(1)[OF assms]] by simp
  then show ?thesis using assms Nil by (simp add: s_removeFirst_empty)
next
  case (Cons h xs')
  note d = s_strictD[OF assms]
  note b = s_absD[OF d(1)]
  have hd: "s_head l = Some h" using b(3) Cons by simp
  have h: "h < length (s_store l)" using b(5) Cons by simp
  have "s_strict (snd (s_removeFirst l)) xs'"
    unfolding s_strict_def
  proof (intro conjI allI impI)
    show "s_abs (snd (s_removeFirst l)) xs'" using d(1) Cons by (intro s_abs_removeFirst[of l h]) simp
    show "s_size (snd (s_removeFirst l)) = int (length xs')"
      by (simp add: s_removeFirst_fields[OF hd] d(2) Cons)
    fix a assume a: "a < length (s_store (snd (s_removeFirst l)))" "a \<notin> set xs'"
    show "s_next (s_store (snd (s_removeFirst l)) ! a) = Some a"
    proof (cases "a = h")
      case True
      then show ?thesis using h by (simp add: s_removeFirst_fields[OF hd])
    next
      case False
      then show ?thesis using a d(3)[of a] Cons by (simp add: s_removeFirst_fields[OF hd])
    qed
  qed
  then show ?thesis using Cons by simp
qed

lemma s_strict_replace:
  assumes "s_strict l xs"
  shows "s_strict (snd (s_replace l p e)) xs"
proof (cases "s_validate l p")
  case (Inl err)
  then show ?thesis using assms by (simp add: s_replace_fail)
next
  case (Inr a)
  note d = s_strictD[OF assms]
  show ?thesis
    unfolding s_strict_def
    using s_abs_replace[OF d(1), of p e] d(2) d(3)
    by (simp add: s_replace_next[OF Inr]) (simp add: s_replace_fields[OF Inr])
qed

lemma s_strict_clear:
  assumes "s_strict l xs"
  shows "\<exists>l'. s_clear l False = Some l' \<and> s_strict l' [] \<and>
    (\<forall>a<length (s_store l'). s_next (s_store l' ! a) = Some a) \<and> s_ident l' = s_ident l"
proof -
  note d = s_strictD[OF assms]
  note b = s_absD[OF d(1)]
  from s_clear_fields[OF d(1), of False] obtain l'
    where l': "s_clear l False = Some l'" "s_store l' = s_mark (s_store l) xs"
      "s_head l' = None" "s_tail l' = None" "s_size l' = 0" "s_ident l' = s_ident l"
    by auto
  have dep: "s_next (s_store l' ! a) = Some a" if "a < length (s_store l')" for a
  proof (cases "a \<in> set xs")
    case True
    then show ?thesis using b(5) by (simp add: l'(2) s_mark_in)
  next
    case False
    then show ?thesis using d(3)[of a] that by (simp add: l'(2) s_mark_out)
  qed
  have "s_strict l' []"
    using dep l' by (simp add: s_strict_def s_abs_Nil)
  then show ?thesis using l' dep by blast
qed

lemma s_strict_step:
  assumes "s_strict l xs" "op \<noteq> S_clear True"
  shows "\<exists>l' xs'. s_step l op = Some l' \<and> s_strict l' xs'"
proof (cases op)
  case (S_addAfter p e)
  then show ?thesis using s_strict_addAfter[OF assms(1), of p e] by auto
next
  case (S_addFirst e)
  then show ?thesis using s_strict_addFirst[OF assms(1), of e] by auto
next
  case (S_addLast e)
  then show ?thesis using s_strict_addLast[OF assms(1), of e] by auto
next
  case (S_clear instant)
  then show ?thesis using s_strict_clear[OF assms(1)] assms(2) by auto
next
  case S_removeFirst
  then show ?thesis using s_strict_removeFirst[OF assms(1)] by auto
next
  case (S_replace p e)
  then show ?thesis using s_strict_replace[OF assms(1), of p e] by auto
qed

lemma s_strict_run:
  assumes "s_strict l xs" "S_clear True \<notin> set ops"
  shows "\<exists>l' xs'. s_run l ops = Some l' \<and> s_strict l' xs'"
  using assms
proof (induction ops arbitrary: l xs)
  case Nil
  then show ?case by auto
next
  case (Cons op ops)
  from s_strict_step[OF Cons.prems(1), of op] Cons.prems(2) obtain l1 xs1
    where 1: "s_step l op = Some l1" "s_strict l1 xs1" by auto
  from Cons.IH[OF 1(2)] Cons.prems(2) show ?case using 1(1) by simp
qed

lemma s_counting_not_clear: "\<forall>op\<in>set ops. s_counting op \<Longrightarrow> S_clear True \<notin> set ops"
  by auto

lemma s_strict_count:
  assumes "s_strict l xs"
  shows "s_walk (s_store l) (s_head l) = Some xs"
    "s_size l = int (length (filter (\<lambda>a. \<not> s_isDeprecated l a) xs))"
proof -
  note d = s_strictD[OF assms]
  note b = s_absD[OF d(1)]
  show "s_walk (s_store l) (s_head l) = Some xs" by (rule s_abs_walk[OF d(1)])
  have "filter (\<lambda>a. \<not> s_isDeprecated l a) xs = xs"
    using s_seg_live[OF b(2) b(1)] by (simp add: s_isDeprecated_def)
  then show "s_size l = int (length (filter (\<lambda>a. \<not> s_isDeprecated l a) xs))"
    using d(2) by simp
qed

lemma s_abs_tail_in:
  assumes "s_abs l xs" "s_tail l = Some t"
  shows "t \<in> set xs" "s_next (s_store l ! t) = None" "t < length (s_store l)"
proof -
  note d = s_absD[OF assms(1)]
  from d(4) assms(2) obtain ys where ys: "xs = ys @ [t]" by (cases xs rule: rev_cases) auto
  show "t \<in> set xs" using ys by simp
  then show "t < length (s_store l)" using d(5) by simp
  show "s_next (s_store l ! t) = None" using d(2) ys by (simp add: s_seg_append)
qed

lemma s_step_deprecated:
  assumes "s_abs l xs" "a < length (s_store l)" "s_next (s_store l ! a) = Some a"
    and "s_step l op = Some l'"
  shows "a < length (s_store l') \<and> s_next (s_store l' ! a) = Some a"
proof (cases op)
  case (S_addAfter p e)
  show ?thesis
  proof (cases "s_validate l p")
    case (Inl err)
    then show ?thesis using assms S_addAfter by (simp add: s_addAfter_fail)
  next
    case (Inr b)
    then have "b \<noteq> a" using assms(3) by (auto simp: s_validate_Inr)
    then show ?thesis using assms S_addAfter
      by (auto simp: s_addAfter_fields[OF Inr] nth_append)
  qed
next
  case (S_addFirst e)
  then show ?thesis using assms by (auto simp: s_addFirst_fields nth_append)
next
  case (S_addLast e)
  show ?thesis
  proof (cases "s_tail l")
    case None
    then show ?thesis using assms S_addLast by (auto simp: s_addLast_fields nth_append)
  next
    case (Some t)
    then have "t \<noteq> a" using s_abs_tail_in(2)[OF assms(1) Some] assms(3) by auto
    then show ?thesis using assms S_addLast Some by (auto simp: s_addLast_fields nth_append)
  qed
next
  case (S_clear instant)
  from s_clear_fields[OF assms(1), of instant] assms(4) S_clear
  have "s_store l' = (if instant then s_store l else s_mark (s_store l) xs)" by auto
  then show ?thesis using assms(2,3) by (simp add: s_mark_deprecated)
next
  case S_removeFirst
  show ?thesis
  proof (cases "s_head l")
    case None
    then show ?thesis using assms S_removeFirst by (simp add: s_removeFirst_empty)
  next
    case (Some h)
    then show ?thesis using assms S_removeFirst
      by (cases "a = h") (auto simp: s_removeFirst_fields[OF Some])
  qed
next
  case (S_replace p e)
  show ?thesis
  proof (cases "s_validate l p")
    case (Inl err)
    then show ?thesis using assms S_replace by (simp add: s_replace_fail)
  next
    case (Inr b)
    then show ?thesis using assms S_replace by (auto simp: s_replace_next[OF Inr])
  qed
qed

lemma s_run_deprecated:
  assumes "s_abs l xs" "a < length (s_store l)" "s_next (s_store l ! a) = Some a"
    and "s_run l ops = Some l'"
  shows "a < length (s_store l') \<and> s_next (s_store l' ! a) = Some a"
  using assms
proof (induction ops arbitrary: l xs)
  case Nil
  then show ?case by simp
next
  case (Cons op ops)
  from s_abs_step[OF Cons.prems(1), of op] obtain l1 xs1
    where 1: "s_step l op = Some l1" "s_abs l1 xs1" by blast
  note 2 = s_step_deprecated[OF Cons.prems(1,2,3) 1(1)]
  show ?case using Cons.IH[OF 1(2) conjunct1[OF 2] conjunct2[OF 2]] Cons.prems(4) 1(1) by simp
qed

lemma s_validate_deprecated:
  "p_node p < length (s_store l) \<Longrightarrow> s_next (s_store l ! p_node p) = Some (p_node p) \<Longrightarrow>
   s_validate l p = Inl InvalidPosition"
  by (simp add: s_validate_def s_isDeprecated_def)

lemma s_removeFirst_others:
  assumes "s_head l = Some h" "s_validate l q = Inr b" "b \<noteq> h"
  shows "s_validate (snd (s_removeFirst l)) q = Inr b"
    "fst (s_replace (snd (s_removeFirst l)) q y) = Inr (s_element (s_store l ! b))"
proof -
  show v: "s_validate (snd (s_removeFirst l)) q = Inr b"
    using assms(2,3) by (simp add: s_validate_Inr s_removeFirst_fields[OF assms(1)])
  show "fst (s_replace (snd (s_removeFirst l)) q y) = Inr (s_element (s_store l ! b))"
    using assms(3) by (simp add: s_replace_fields[OF v] s_removeFirst_fields[OF assms(1)])
qed

lemma s_addLast_elements:
  assumes "s_abs l xs"
  shows "map (\<lambda>a. s_element (s_store (snd (s_addLast l e)) ! a)) (xs @ [length (s_store l)])
       = map (\<lambda>a. s_element (s_store l ! a)) xs @ [e]"
proof -
  note d = s_absD[OF assms]
  have old: "s_element (s_store (snd (s_addLast l e)) ! a) = s_element (s_store l ! a)"
    if "a \<in> set xs" for a
  proof (cases "s_tail l")
    case None
    then show ?thesis using d(5)[OF that] by (simp add: s_addLast_fields nth_append)
  next
    case (Some t)
    then show ?thesis using d(5)[OF that]
      by (cases "a = t") (simp_all add: s_addLast_fields nth_append)
  qed
  have new: "s_element (s_store (snd (s_addLast l e)) ! length (s_store l)) = e"
  proof (cases "s_tail l")
    case None
    then show ?thesis by (simp add: s_addLast_fields)
  next
    case (Some t)
    then have "t \<noteq> length (s_store l)" using s_abs_tail_in(3)[OF assms Some] by simp
    then show ?thesis using Some by (simp add: s_addLast_fields)
  qed
  show ?thesis using old new by simp
qed

lemma s_fold_addLast_elements:
  assumes "s_abs l xs"
  shows "\<exists>xs'. s_abs (fold (\<lambda>el l. snd (s_addLast l el)) els l) xs' \<and>
     map (\<lambda>a. s_element (s_store (fold (\<lambda>el l. snd (s_addLast l el)) els l) ! a)) xs'
       = map (\<lambda>a. s_element (s_store l ! a)) xs @ els"
  using assms
proof (induction els arbitrary: l xs)
  case Nil
  then show ?case by auto
next
  case (Cons e es)
  let ?l1 = "snd (s_addLast l e)"
  let ?f = "fold (\<lambda>el l. snd (s_addLast l el)) es ?l1"
  from Cons.IH[OF s_abs_addLast[OF Cons.prems, of e]] obtain xs'
    where 1: "s_abs ?f xs'"
      "map (\<lambda>a. s_element (s_store ?f ! a)) xs'
         = map (\<lambda>a. s_element (s_store ?l1 ! a)) (xs @ [length (s_store l)]) @ es"
    by blast
  have "map (\<lambda>a. s_element (s_store ?f ! a)) xs'
         = (map (\<lambda>a. s_element (s_store l ! a)) xs @ [e]) @ es"
    using 1(2) by (simp only: s_addLast_elements[OF Cons.prems])
  then show ?case using 1(1) by auto
qed

lemma s_iterator_new: "s_iterator (SinglyLinkedList i arr) = Some arr"
proof -
  from s_fold_addLast_elements[OF s_abs_empty, of arr i] obtain xs
    where "s_abs (SinglyLinkedList i arr) xs"
      "map (\<lambda>a. s_element (s_store (SinglyLinkedList i arr) ! a)) xs = arr"
    by (auto simp: SinglyLinkedList_def)
  then show ?thesis using s_abs_iterator by fastforce
qed

lemma s_addAfter_last:
  assumes "s_abs l xs" "s_getLast l = Some p"
  shows "\<exists>q l'. s_addAfter l p e = (Inr q, l') \<and> s_getLast l' = Some q \<and>
     s_element (s_store l' ! p_node q) = e \<and> q \<noteq> p"
proof -
  from assms(2) obtain t where t: "s_tail l = Some t" "p = \<lparr>p_node = t, p_container = s_ident l\<rparr>"
    by (auto simp: s_getLast_def s_createPosition_def split: option.splits)
  note tin = s_abs_tail_in[OF assms(1) t(1)]
  have v: "s_validate l p = Inr t" using s_abs_valid[OF assms(1) tin(1)] t(2) by simp
  note f = s_addAfter_fields[OF v, of e]
  have "s_getLast (snd (s_addAfter l p e)) = Some \<lparr>p_node = length (s_store l), p_container = s_ident l\<rparr>"
    using t(1) by (simp add: s_getLast_def s_createPosition_def f)
  moreover have "s_element (s_store (snd (s_addAfter l p e)) ! length (s_store l)) = e"
    using tin(3) by (simp add: f)
  moreover have "\<lparr>p_node = length (s_store l), p_container = s_ident l\<rparr> \<noteq> p"
    using tin(3) t(2) by simp
  ultimately show ?thesis using f(6) by (cases "s_addAfter l p e") auto
qed


section \<open>Doubly linked list: the shape of the links\<close>

lemma d_insertBetween_fields:
  "d_store (snd (d_insertBetween l e pred succ)) = d_ins_store (d_store l) e pred succ"
  "d_head (snd (d_insertBetween l e pred succ)) = (if pred = None then Some (length (d_store l)) else d_head l)"
  "d_tail (snd (d_insertBetween l e pred succ)) = (if succ = None then Some (length (d_store l)) else d_tail l)"
  "d_size (snd (d_insertBetween l e pred succ)) = d_size l + 1"
  "d_ident (snd (d_insertBetween l e pred succ)) = d_ident l"
  "fst (d_insertBetween l e pred succ) = length (d_store l)"
  by (simp_all add: d_insertBetween_def d_ins_store_def Let_def split: option.splits)

lemma d_deleteNode_fields:
  "d_store (snd (d_deleteNode l a)) = d_del_store (d_store l) a"
  "d_head (snd (d_deleteNode l a)) = (if d_prev (d_store l ! a) = None then d_next (d_store l ! a) else d_head l)"
  "d_tail (snd (d_deleteNode l a)) = (if d_next (d_store l ! a) = None then d_prev (d_store l ! a) else d_tail l)"
  "d_size (snd (d_deleteNode l a)) = d_size l - 1"
  "d_ident (snd (d_deleteNode l a)) = d_ident l"
  "fst (d_deleteNode l a) = d_element (d_del_store (d_store l) a ! a)"
  by (simp_all add: d_deleteNode_def d_del_store_def Let_def split: option.splits)

lemma d_seg_append:
  "d_seg st p (xs @ ys) q \<longleftrightarrow> d_seg st p xs (first_of ys q) \<and> d_seg st (last_of p xs) ys q"
  by (induction xs arbitrary: p) (auto simp: first_of_append)

lemma d_seg_bound: "d_seg st p xs q \<Longrightarrow> x \<in> set xs \<Longrightarrow> x < length st"
  by (induction xs arbitrary: p) auto

lemma d_seg_frame:
  assumes "d_seg st p xs q"
    and "\<And>x. x \<in> set xs \<Longrightarrow> d_next (st' ! x) = d_next (st ! x) \<and> d_prev (st' ! x) = d_prev (st ! x)"
    and "length st \<le> length st'"
  shows "d_seg st' p xs q"
  using assms by (induction xs arbitrary: p) auto

lemma d_seg_mid:
  assumes "d_seg st p (ys @ a # zs) q"
  shows "a < length st" "d_prev (st ! a) = last_of p ys" "d_next (st ! a) = first_of zs q"
    "d_seg st p ys (Some a)" "d_seg st (Some a) zs q"
  using assms by (simp_all add: d_seg_append)

lemma d_chainD:
  assumes "d_chain st xs"
  shows "distinct xs" "d_seg st None xs None" "\<And>x. x \<in> set xs \<Longrightarrow> x < length st"
  using assms d_seg_bound[of st None xs None] by (simp_all add: d_chain_def)

lemma d_chain_live:
  assumes "d_chain st xs" "a \<in> set xs"
  shows "d_live st a"
proof -
  note d = d_chainD[OF assms(1)]
  from assms(2) obtain ys zs where xs: "xs = ys @ a # zs" by (auto simp: in_set_conv_decomp)
  have "d_next (st ! a) = first_of zs None" using d(2) xs d_seg_mid(3) by blast
  moreover have "a \<notin> set zs" using d(1) xs by simp
  ultimately have "d_next (st ! a) \<noteq> Some a" by (cases zs) auto
  then show ?thesis using d(3)[OF assms(2)] by (simp add: d_live_def)
qed

lemma d_ins_store_length [simp]: "length (d_ins_store st e pred succ) = Suc (length st)"
  by (simp add: d_ins_store_def Let_def split: option.splits)

lemma d_del_store_length [simp]: "length (d_del_store st a) = length st"
  by (simp add: d_del_store_def Let_def split: option.splits)

lemma d_ins_store_other:
  assumes "x < length st" "pred \<noteq> Some x" "succ \<noteq> Some x"
  shows "d_ins_store st e pred succ ! x = st ! x"
  using assms by (auto simp: d_ins_store_def Let_def nth_append nth_list_update split: option.splits)

lemma d_ins_store_new:
  assumes "\<And>p. pred = Some p \<Longrightarrow> p < length st" "\<And>s. succ = Some s \<Longrightarrow> s < length st"
  shows "d_next (d_ins_store st e pred succ ! length st) = succ"
    "d_prev (d_ins_store st e pred succ ! length st) = pred"
    "d_element (d_ins_store st e pred succ ! length st) = e"
  using assms by (auto simp: d_ins_store_def Let_def nth_append nth_list_update split: option.splits)

lemma d_ins_store_pred:
  assumes "p < length st" "succ \<noteq> Some p"
  shows "d_next (d_ins_store st e (Some p) succ ! p) = Some (length st)"
    "d_prev (d_ins_store st e (Some p) succ ! p) = d_prev (st ! p)"
    "d_element (d_ins_store st e (Some p) succ ! p) = d_element (st ! p)"
  using assms by (auto simp: d_ins_store_def Let_def nth_append nth_list_update split: option.splits)

lemma d_ins_store_succ:
  assumes "s < length st" "pred \<noteq> Some s"
  shows "d_prev (d_ins_store st e pred (Some s) ! s) = Some (length st)"
    "d_next (d_ins_store st e pred (Some s) ! s) = d_next (st ! s)"
    "d_element (d_ins_store st e pred (Some s) ! s) = d_element (st ! s)"
  using assms by (auto simp: d_ins_store_def Let_def nth_append nth_list_update split: option.splits)

lemma upd_next_element:
  "d_element (xs[i := (xs ! i)\<lparr>d_next := v\<rparr>] ! x) = d_element (xs ! x)"
  by (cases "i = x"; cases "i < length xs") (simp_all add: list_update_beyond)

lemma upd_prev_element:
  "d_element (xs[i := (xs ! i)\<lparr>d_prev := v\<rparr>] ! x) = d_element (xs ! x)"
  by (cases "i = x"; cases "i < length xs") (simp_all add: list_update_beyond)

lemma d_ins_store_element:
  assumes "x < length st"
  shows "d_element (d_ins_store st e pred succ ! x) = d_element (st ! x)"
  using assms
  by (simp add: d_ins_store_def Let_def upd_next_element upd_prev_element
      split: option.splits) (simp add: nth_append)

lemma d_seg_snoc:
  "d_seg st p (ys @ [y]) q \<longleftrightarrow>
     d_seg st p ys (Some y) \<and> y < length st \<and> d_prev (st ! y) = last_of p ys \<and> d_next (st ! y) = q"
  by (auto simp: d_seg_append)

lemma d_ins_chain:
  assumes "d_chain st (ys @ zs)"
  shows "d_chain (d_ins_store st e (last_of None ys) (first_of zs None)) (ys @ length st # zs)"
proof -
  note d = d_chainD[OF assms]
  let ?pred = "last_of None ys" and ?succ = "first_of zs None" and ?n = "length st"
  let ?st' = "d_ins_store st e ?pred ?succ"
  have A: "d_seg st None ys ?succ" and B: "d_seg st ?pred zs None"
    using d(2) by (simp_all add: d_seg_append)
  have pr: "p < length st" "p \<in> set ys" if "?pred = Some p" for p
    using that d(3) by (cases ys rule: rev_cases; auto)+
  have sr: "s < length st" "s \<in> set zs" if "?succ = Some s" for s
    using that d(3) by (cases zs; auto)+
  have ps: "?pred \<noteq> Some x \<or> ?succ \<noteq> Some x" for x
    using pr(2)[of x] sr(2)[of x] d(1) by auto
  have new: "d_next (?st' ! ?n) = ?succ" "d_prev (?st' ! ?n) = ?pred"
    using pr(1) sr(1) by (simp_all add: d_ins_store_new)
  have other: "?st' ! x = st ! x" if "x < length st" "?pred \<noteq> Some x" "?succ \<noteq> Some x" for x
    using that by (rule d_ins_store_other)
  have ys: "d_seg ?st' None ys (Some ?n)"
  proof (cases ys rule: rev_cases)
    case Nil
    then show ?thesis by simp
  next
    case (snoc ys' p)
    then have pred: "?pred = Some p" by simp
    have p: "d_seg st None ys' (Some p)" "p < length st" "d_prev (st ! p) = last_of None ys'"
      using A snoc by (simp_all add: d_seg_snoc)
    have nsucc: "?succ \<noteq> Some p" using ps[of p] pred by simp
    have "d_seg ?st' None ys' (Some p)"
    proof (rule d_seg_frame[OF p(1)])
      fix x assume x: "x \<in> set ys'"
      then have "x \<noteq> p" "x < length st" "x \<notin> set zs" using d(1) d(3) snoc by auto
      then have "?st' ! x = st ! x" using pred sr(2)[of x] by (intro other) auto
      then show "d_next (?st' ! x) = d_next (st ! x) \<and> d_prev (?st' ! x) = d_prev (st ! x)" by simp
    qed simp
    moreover have "d_next (?st' ! p) = Some ?n" "d_prev (?st' ! p) = d_prev (st ! p)"
      using d_ins_store_pred[OF p(2) nsucc, of e] pred by simp_all
    ultimately show ?thesis using snoc p by (simp add: d_seg_snoc)
  qed
  have zs: "d_seg ?st' (Some ?n) zs None"
  proof (cases zs)
    case Nil
    then show ?thesis by simp
  next
    case (Cons s zs')
    then have succ: "?succ = Some s" by simp
    have s: "s < length st" "d_next (st ! s) = first_of zs' None" "d_seg st (Some s) zs' None"
      using B Cons by simp_all
    have npred: "?pred \<noteq> Some s" using ps[of s] succ by simp
    have "d_seg ?st' (Some s) zs' None"
    proof (rule d_seg_frame[OF s(3)])
      fix x assume x: "x \<in> set zs'"
      then have "x \<noteq> s" "x < length st" "x \<notin> set ys" using d(1) d(3) Cons by auto
      then have "?st' ! x = st ! x" using succ pr(2)[of x] by (intro other) auto
      then show "d_next (?st' ! x) = d_next (st ! x) \<and> d_prev (?st' ! x) = d_prev (st ! x)" by simp
    qed simp
    moreover have "d_prev (?st' ! s) = Some ?n" "d_next (?st' ! s) = d_next (st ! s)"
      using d_ins_store_succ[OF s(1) npred, of e] succ by simp_all
    ultimately show ?thesis using Cons s by simp
  qed
  have "d_seg ?st' None (ys @ ?n # zs) None"
    using ys zs new by (simp add: d_seg_append)
  moreover have "distinct (ys @ ?n # zs)" using d(1) d(3) by auto
  ultimately show ?thesis by (simp add: d_chain_def)
qed

lemma d_ins_frame:
  assumes "d_chain st xs" "\<And>p. pred = Some p \<Longrightarrow> p \<notin> set xs" "\<And>s. succ = Some s \<Longrightarrow> s \<notin> set xs"
  shows "d_chain (d_ins_store st e pred succ) xs"
proof -
  note d = d_chainD[OF assms(1)]
  have "d_seg (d_ins_store st e pred succ) None xs None"
  proof (rule d_seg_frame[OF d(2)])
    fix x assume x: "x \<in> set xs"
    then have "d_ins_store st e pred succ ! x = st ! x"
      using assms(2)[of x] assms(3)[of x] d(3) by (intro d_ins_store_other) auto
    then show "d_next (d_ins_store st e pred succ ! x) = d_next (st ! x) \<and>
        d_prev (d_ins_store st e pred succ ! x) = d_prev (st ! x)" by simp
  qed simp
  then show ?thesis using d(1) by (simp add: d_chain_def)
qed

lemma d_del_store_other:
  assumes "x \<noteq> a" "d_prev (st ! a) \<noteq> Some x" "d_next (st ! a) \<noteq> Some x"
  shows "d_del_store st a ! x = st ! x"
  using assms by (auto simp: d_del_store_def Let_def split: option.splits)

lemma d_del_store_self:
  assumes "a < length st"
  shows "d_next (d_del_store st a ! a) = Some a" "d_prev (d_del_store st a ! a) = Some a"
  using assms by (simp_all add: d_del_store_def Let_def split: option.splits)

lemma d_del_store_element:
  "d_element (d_del_store st a ! x) = d_element (st ! x)"
proof -
  have 1: "d_element (xs[i := (xs ! i)\<lparr>d_next := v, d_prev := w\<rparr>] ! x) = d_element (xs ! x)"
    for xs :: "'a dnode list" and i v w
    by (cases "i = x"; cases "i < length xs") (simp_all add: list_update_beyond)
  show ?thesis
    by (simp add: d_del_store_def Let_def 1 upd_next_element upd_prev_element split: option.splits)
qed

lemma d_del_store_pred:
  assumes "d_prev (st ! a) = Some p" "p < length st" "p \<noteq> a" "d_next (st ! a) \<noteq> Some p"
  shows "d_next (d_del_store st a ! p) = d_next (st ! a)"
    "d_prev (d_del_store st a ! p) = d_prev (st ! p)"
  using assms by (auto simp: d_del_store_def Let_def nth_list_update split: option.splits)

lemma d_del_store_succ:
  assumes "d_next (st ! a) = Some s" "s < length st" "s \<noteq> a" "d_prev (st ! a) \<noteq> Some s"
  shows "d_prev (d_del_store st a ! s) = d_prev (st ! a)"
    "d_next (d_del_store st a ! s) = d_next (st ! s)"
  using assms by (auto simp: d_del_store_def Let_def nth_list_update split: option.splits)

lemma d_del_chain:
  assumes "d_chain st (ys @ a # zs)"
  shows "d_chain (d_del_store st a) (ys @ zs)"
proof -
  note d = d_chainD[OF assms]
  note m = d_seg_mid[OF d(2)]
  let ?st' = "d_del_store st a"
  have other: "?st' ! x = st ! x" if "x \<noteq> a" "last_of None ys \<noteq> Some x" "first_of zs None \<noteq> Some x" for x
    using that m(2) m(3) by (intro d_del_store_other) simp_all
  have ys: "d_seg ?st' None ys (first_of zs None)"
  proof (cases ys rule: rev_cases)
    case Nil
    then show ?thesis by simp
  next
    case (snoc ys' p)
    have p: "d_seg st None ys' (Some p)" "p < length st" "d_prev (st ! p) = last_of None ys'"
      using m(4) snoc by (simp_all add: d_seg_snoc)
    have pa: "d_prev (st ! a) = Some p" using m(2) snoc by simp
    have neq: "p \<noteq> a" "d_next (st ! a) \<noteq> Some p"
      using d(1) snoc m(3) by (cases zs; auto)+
    have "d_seg ?st' None ys' (Some p)"
    proof (rule d_seg_frame[OF p(1)])
      fix x assume x: "x \<in> set ys'"
      then have "x \<noteq> p" "x \<noteq> a" "x \<notin> set zs" using d(1) snoc by auto
      then have "?st' ! x = st ! x" using snoc by (intro other) (cases zs; auto)+
      then show "d_next (?st' ! x) = d_next (st ! x) \<and> d_prev (?st' ! x) = d_prev (st ! x)" by simp
    qed simp
    then show ?thesis
      using d_del_store_pred[OF pa p(2) neq] p snoc m(3) by (simp add: d_seg_snoc)
  qed
  have zs: "d_seg ?st' (last_of None ys) zs None"
  proof (cases zs)
    case Nil
    then show ?thesis by simp
  next
    case (Cons s zs')
    have s: "s < length st" "d_next (st ! s) = first_of zs' None" "d_seg st (Some s) zs' None"
      using m(5) Cons by simp_all
    have sa: "d_next (st ! a) = Some s" using m(3) Cons by simp
    have neq: "s \<noteq> a" "d_prev (st ! a) \<noteq> Some s"
      using d(1) Cons m(2) by (cases ys rule: rev_cases; auto)+
    have "d_seg ?st' (Some s) zs' None"
    proof (rule d_seg_frame[OF s(3)])
      fix x assume x: "x \<in> set zs'"
      then have "x \<noteq> s" "x \<noteq> a" "x \<notin> set ys" using d(1) Cons by auto
      then have "?st' ! x = st ! x" using Cons by (intro other) (cases ys rule: rev_cases; auto)+
      then show "d_next (?st' ! x) = d_next (st ! x) \<and> d_prev (?st' ! x) = d_prev (st ! x)" by simp
    qed simp
    then show ?thesis
      using d_del_store_succ[OF sa s(1) neq] s Cons m(2) by simp
  qed
  have "d_seg ?st' None (ys @ zs) None" using ys zs by (simp add: d_seg_append)
  moreover have "distinct (ys @ zs)" using d(1) by simp
  ultimately show ?thesis by (simp add: d_chain_def)
qed

lemma d_del_frame:
  assumes "d_chain st xs" "a \<notin> set xs"
    "\<And>p. d_prev (st ! a) = Some p \<Longrightarrow> p \<notin> set xs" "\<And>s. d_next (st ! a) = Some s \<Longrightarrow> s \<notin> set xs"
  shows "d_chain (d_del_store st a) xs"
proof -
  note d = d_chainD[OF assms(1)]
  have "d_seg (d_del_store st a) None xs None"
  proof (rule d_seg_frame[OF d(2)])
    fix x assume x: "x \<in> set xs"
    then have "d_del_store st a ! x = st ! x"
      using assms(2) assms(3)[of x] assms(4)[of x] by (intro d_del_store_other) auto
    then show "d_next (d_del_store st a ! x) = d_next (st ! x) \<and>
        d_prev (d_del_store st a ! x) = d_prev (st ! x)" by simp
  qed simp
  then show ?thesis using d(1) by (simp add: d_chain_def)
qed

lemma d_seg_fwd_unique:
  "d_seg st p (a # xs) None \<Longrightarrow> d_seg st p' (a # ys) None \<Longrightarrow> xs = ys"
proof (induction xs arbitrary: a ys p p')
  case Nil
  then show ?case by (cases ys) auto
next
  case (Cons b xs)
  then obtain ys' where ys: "ys = b # ys'" by (cases ys) auto
  have "d_seg st (Some a) (b # xs) None" "d_seg st (Some a) (b # ys') None"
    using Cons.prems ys by simp_all
  from Cons.IH[OF this] show ?case using ys by simp
qed

lemma d_seg_bwd_unique:
  "d_seg st None (xs @ [a]) q \<Longrightarrow> d_seg st None (ys @ [a]) q' \<Longrightarrow> xs = ys"
proof (induction xs arbitrary: a ys q q' rule: rev_induct)
  case Nil
  then have "last_of None ys = None" by (simp add: d_seg_snoc)
  then show ?case by (simp add: last_of_None)
next
  case (snoc b xs)
  have A: "d_seg st None (xs @ [b]) (Some a)" "d_prev (st ! a) = Some b"
    using snoc.prems(1) d_seg_snoc[of st None "xs @ [b]" a q] by simp_all
  have B: "d_seg st None ys (Some a)" "d_prev (st ! a) = last_of None ys"
    using snoc.prems(2) by (simp_all add: d_seg_snoc)
  have "last_of None ys = Some b" using A(2) B(2) by simp
  then obtain ys' where ys: "ys = ys' @ [b]" by (cases ys rule: rev_cases) auto
  from snoc.IH[OF A(1)] B(1) ys show ?case by simp
qed

lemma d_chain_unique:
  assumes "d_chain st xs" "d_chain st ys" "a \<in> set xs" "a \<in> set ys"
  shows "xs = ys"
proof -
  from assms(3) obtain x1 x2 where xs: "xs = x1 @ a # x2" by (auto simp: in_set_conv_decomp)
  from assms(4) obtain y1 y2 where ys: "ys = y1 @ a # y2" by (auto simp: in_set_conv_decomp)
  note dx = d_chainD(2)[OF assms(1)] and dy = d_chainD(2)[OF assms(2)]
  have "d_seg st (last_of None x1) (a # x2) None" "d_seg st (last_of None y1) (a # y2) None"
    using dx dy xs ys by (simp_all add: d_seg_append)
  then have 2: "x2 = y2" by (rule d_seg_fwd_unique)
  have "d_seg st None (x1 @ [a]) (first_of x2 None)" "d_seg st None (y1 @ [a]) (first_of y2 None)"
    using dx dy xs ys d_seg_append[of st None "x1 @ [a]" x2 None] d_seg_append[of st None "y1 @ [a]" y2 None]
    by simp_all
  then have "x1 = y1" by (rule d_seg_bwd_unique)
  then show ?thesis using 2 xs ys by simp
qed

lemma d_absD:
  assumes "d_abs l xs"
  shows "d_chain (d_store l) xs" "d_head l = first_of xs None" "d_tail l = last_of None xs"
  using assms by (simp_all add: d_abs_def)

lemma d_invD:
  assumes "d_inv l"
  shows "\<And>a. d_live (d_store l) a \<Longrightarrow> \<exists>xs. d_chain (d_store l) xs \<and> a \<in> set xs"
    "\<And>h. d_head l = Some h \<Longrightarrow> d_live (d_store l) h \<and> d_prev (d_store l ! h) = None"
    "\<And>t. d_tail l = Some t \<Longrightarrow> d_live (d_store l) t \<and> d_next (d_store l ! t) = None"
  using assms by (simp_all add: d_inv_def)

lemma d_strictD:
  assumes "d_strict l xs"
  shows "d_abs l xs" "d_size l = int (length xs)" "\<And>a. d_live (d_store l) a \<Longrightarrow> a \<in> set xs"
  using assms by (simp_all add: d_strict_def)

text \<open>Which nodes are live after an insertion or a deletion in a chain.\<close>

lemma d_ins_live:
  assumes "d_chain st (ys @ zs)"
  shows "d_live (d_ins_store st e (last_of None ys) (first_of zs None)) b \<longleftrightarrow>
           b = length st \<or> d_live st b"
proof -
  note c' = d_ins_chain[OF assms, of e]
  let ?st' = "d_ins_store st e (last_of None ys) (first_of zs None)"
  show ?thesis
  proof (cases "b \<in> set (ys @ zs)")
    case True
    then have "d_live st b" using d_chain_live[OF assms] by blast
    moreover have "d_live ?st' b" using True by (intro d_chain_live[OF c']) auto
    ultimately show ?thesis by simp
  next
    case False
    show ?thesis
    proof (cases "b < length st")
      case True
      have "last_of None ys \<noteq> Some b" using False by (cases ys rule: rev_cases) auto
      moreover have "first_of zs None \<noteq> Some b" using False by (cases zs) auto
      ultimately have "?st' ! b = st ! b" using True by (intro d_ins_store_other)
      then show ?thesis using True by (simp add: d_live_def)
    next
      case False
      then show ?thesis using d_chain_live[OF c', of "length st"]
        by (auto simp: d_live_def)
    qed
  qed
qed

lemma d_del_live:
  assumes "d_chain st (ys @ a # zs)"
  shows "d_live (d_del_store st a) b \<longleftrightarrow> b \<noteq> a \<and> d_live st b"
proof -
  note c' = d_del_chain[OF assms]
  note d = d_chainD[OF assms]
  note m = d_seg_mid[OF d(2)]
  let ?st' = "d_del_store st a"
  show ?thesis
  proof (cases "b \<in> set (ys @ zs)")
    case True
    then have "d_live st b" using d_chain_live[OF assms, of b] by auto
    moreover have "d_live ?st' b" using True by (intro d_chain_live[OF c'])
    moreover have "b \<noteq> a" using True d(1) by auto
    ultimately show ?thesis by simp
  next
    case False
    show ?thesis
    proof (cases "b = a")
      case True
      then show ?thesis using d_del_store_self[OF m(1)] by (simp add: d_live_def)
    next
      case ne: False
      have "d_prev (st ! a) \<noteq> Some b" using False m(2) by (cases ys rule: rev_cases) auto
      moreover have "d_next (st ! a) \<noteq> Some b" using False m(3) by (cases zs) auto
      ultimately have "?st' ! b = st ! b" using ne by (intro d_del_store_other)
      then show ?thesis using ne by (simp add: d_live_def)
    qed
  qed
qed

lemma d_abs_insertBetween:
  assumes "d_abs l (ys @ zs)"
  shows "d_abs (snd (d_insertBetween l e (last_of None ys) (first_of zs None)))
           (ys @ length (d_store l) # zs)"
proof -
  note d = d_absD[OF assms]
  have "last_of None ys = None \<longleftrightarrow> ys = []" "first_of zs None = None \<longleftrightarrow> zs = []"
    by (simp_all add: last_of_None first_of_None)
  then show ?thesis
    using d_ins_chain[OF d(1), of e] d(2) d(3)
    by (simp add: d_abs_def d_insertBetween_fields first_of_append last_of_append)
       (auto simp: last_of_def first_of_def split: list.splits)
qed

lemma d_abs_deleteNode:
  assumes "d_abs l (ys @ a # zs)"
  shows "d_abs (snd (d_deleteNode l a)) (ys @ zs)"
proof -
  note d = d_absD[OF assms]
  note m = d_seg_mid[OF d_chainD(2)[OF d(1)]]
  have "last_of None ys = None \<longleftrightarrow> ys = []" "first_of zs None = None \<longleftrightarrow> zs = []"
    by (simp_all add: last_of_None first_of_None)
  then show ?thesis
    using d_del_chain[OF d(1)] d(2) d(3) m(2) m(3)
    by (simp add: d_abs_def d_deleteNode_fields first_of_append last_of_append)
       (auto simp: last_of_def first_of_def split: list.splits)
qed

lemma d_strict_insertBetween:
  assumes "d_strict l (ys @ zs)"
  shows "d_strict (snd (d_insertBetween l e (last_of None ys) (first_of zs None)))
           (ys @ length (d_store l) # zs)"
proof -
  note d = d_strictD[OF assms]
  show ?thesis
    using d_abs_insertBetween[OF d(1), of e] d(2) d(3) d_ins_live[OF d_absD(1)[OF d(1)], of e]
    by (auto simp: d_strict_def d_insertBetween_fields)
qed

lemma d_strict_deleteNode:
  assumes "d_strict l (ys @ a # zs)"
  shows "d_strict (snd (d_deleteNode l a)) (ys @ zs)"
proof -
  note d = d_strictD[OF assms]
  show ?thesis
    using d_abs_deleteNode[OF d(1)] d(2) d(3) d_del_live[OF d_absD(1)[OF d(1)]]
    by (auto simp: d_strict_def d_deleteNode_fields)
qed

lemma d_strict_inv:
  assumes "d_strict l xs"
  shows "d_inv l"
proof -
  note d = d_strictD[OF assms]
  note b = d_absD[OF d(1)]
  note c = d_chainD[OF b(1)]
  have h: "d_live (d_store l) h \<and> d_prev (d_store l ! h) = None" if "d_head l = Some h" for h
  proof -
    from that b(2) obtain zs where "xs = h # zs" by (cases xs) auto
    then show ?thesis using d_chain_live[OF b(1), of h] c(2) by simp
  qed
  have t: "d_live (d_store l) t \<and> d_next (d_store l ! t) = None" if "d_tail l = Some t" for t
  proof -
    from that b(3) obtain ys where "xs = ys @ [t]" by (cases xs rule: rev_cases) auto
    then show ?thesis using d_chain_live[OF b(1), of t] c(2) by (simp add: d_seg_snoc)
  qed
  show ?thesis using d(3) b(1) h t by (auto simp: d_inv_def)
qed

lemma d_chain_disjoint_or_same:
  assumes "d_chain st xs" "d_chain st ys"
  shows "xs = ys \<or> set xs \<inter> set ys = {}"
  using d_chain_unique[OF assms] by blast

lemma d_chain_head:
  assumes "d_chain st xs" "h \<in> set xs" "d_prev (st ! h) = None"
  shows "\<exists>zs. xs = h # zs"
proof -
  from assms(2) obtain ys zs where xs: "xs = ys @ h # zs" by (auto simp: in_set_conv_decomp)
  have "last_of None ys = None"
    using d_seg_mid(2)[OF d_chainD(2)[OF assms(1)[unfolded xs]]] assms(3) by simp
  then show ?thesis using xs by (simp add: last_of_None)
qed

lemma d_chain_last:
  assumes "d_chain st xs" "t \<in> set xs" "d_next (st ! t) = None"
  shows "\<exists>ys. xs = ys @ [t]"
proof -
  from assms(2) obtain ys zs where xs: "xs = ys @ t # zs" by (auto simp: in_set_conv_decomp)
  have "first_of zs None = None"
    using d_seg_mid(3)[OF d_chainD(2)[OF assms(1)[unfolded xs]]] assms(3) by simp
  then show ?thesis using xs by (simp add: first_of_None)
qed

lemma d_inv_insertBetween:
  assumes "d_inv l" "d_chain (d_store l) (ys @ zs)"
  shows "d_inv (snd (d_insertBetween l e (last_of None ys) (first_of zs None)))"
proof -
  let ?st = "d_store l" and ?n = "length (d_store l)"
  let ?pred = "last_of None ys" and ?succ = "first_of zs None"
  let ?st' = "d_ins_store ?st e ?pred ?succ"
  let ?l' = "snd (d_insertBetween l e ?pred ?succ)"
  note i = d_invD[OF assms(1)]
  note c = d_chainD[OF assms(2)]
  note c' = d_ins_chain[OF assms(2), of e]
  note lv = d_ins_live[OF assms(2), of e]
  have st': "d_store ?l' = ?st'" by (simp add: d_insertBetween_fields)
  have pr: "p \<in> set ys" "p < ?n" if "?pred = Some p" for p
    using that c(3) by (cases ys rule: rev_cases; auto)+
  have sr: "s \<in> set zs" "s < ?n" if "?succ = Some s" for s
    using that c(3) by (cases zs; auto)+
  have D1: "\<exists>xs. d_chain ?st' xs \<and> b \<in> set xs" if "d_live ?st' b" for b
  proof (cases "b = ?n")
    case True
    then show ?thesis using c' by auto
  next
    case False
    then have "d_live ?st b" using that lv by simp
    then obtain xs where xs: "d_chain ?st xs" "b \<in> set xs" using i(1) by blast
    from d_chain_disjoint_or_same[OF xs(1) assms(2)] show ?thesis
    proof
      assume "xs = ys @ zs"
      then have "b \<in> set (ys @ ?n # zs)" using xs(2) by auto
      then show ?thesis using c' by blast
    next
      assume dj: "set xs \<inter> set (ys @ zs) = {}"
      have "d_chain ?st' xs"
        using dj pr(1) sr(1) by (intro d_ins_frame[OF xs(1)]) auto
      then show ?thesis using xs(2) by blast
    qed
  qed
  have new: "d_next (?st' ! ?n) = ?succ" "d_prev (?st' ! ?n) = ?pred"
    using pr(2) sr(2) by (simp_all add: d_ins_store_new)
  have D2: "d_live ?st' h \<and> d_prev (?st' ! h) = None" if hd: "d_head ?l' = Some h" for h
  proof (cases "?pred = None")
    case True
    then have "h = ?n" using hd by (simp add: d_insertBetween_fields)
    then show ?thesis using new(2) True lv by simp
  next
    case False
    then have h: "d_head l = Some h" using hd by (simp add: d_insertBetween_fields split: if_splits)
    note ih = i(2)[OF h]
    have ns: "?succ \<noteq> Some h"
    proof
      assume "?succ = Some h"
      then obtain zs' where "zs = h # zs'" by (cases zs) auto
      then have "d_prev (?st ! h) = ?pred" using c(2) by (simp add: d_seg_append)
      then show False using ih False by simp
    qed
    have "d_prev (?st' ! h) = d_prev (?st ! h)"
    proof (cases "?pred = Some h")
      case True
      then show ?thesis using d_ins_store_pred(2)[OF _ ns, where e = e] ih by (simp add: d_live_def)
    next
      case False
      then show ?thesis using d_ins_store_other[of h ?st ?pred ?succ e] ns ih by (simp add: d_live_def)
    qed
    then show ?thesis using ih lv by simp
  qed
  have D3: "d_live ?st' t \<and> d_next (?st' ! t) = None" if tl: "d_tail ?l' = Some t" for t
  proof (cases "?succ = None")
    case True
    then have "t = ?n" using tl by (simp add: d_insertBetween_fields)
    then show ?thesis using new(1) True lv by simp
  next
    case False
    then have t: "d_tail l = Some t" using tl by (simp add: d_insertBetween_fields split: if_splits)
    note it = i(3)[OF t]
    have np: "?pred \<noteq> Some t"
    proof
      assume "?pred = Some t"
      then obtain ys' where "ys = ys' @ [t]" by (cases ys rule: rev_cases) auto
      then have "d_next (?st ! t) = ?succ" using c(2) by (simp add: d_seg_append d_seg_snoc)
      then show False using it False by simp
    qed
    have "d_next (?st' ! t) = d_next (?st ! t)"
    proof (cases "?succ = Some t")
      case True
      then show ?thesis using d_ins_store_succ(2)[OF _ np, where e = e] it by (simp add: d_live_def)
    next
      case False
      then show ?thesis using d_ins_store_other[of t ?st ?pred ?succ e] np it by (simp add: d_live_def)
    qed
    then show ?thesis using it lv by simp
  qed
  show ?thesis
    unfolding d_inv_def st' using D1 D2 D3 by (simp only: st'[symmetric]) (simp add: st')
qed

lemma d_inv_deleteNode:
  assumes "d_inv l" "d_chain (d_store l) (ys @ a # zs)"
  shows "d_inv (snd (d_deleteNode l a))"
proof -
  let ?st = "d_store l" and ?st' = "d_del_store (d_store l) a"
  let ?l' = "snd (d_deleteNode l a)"
  note i = d_invD[OF assms(1)]
  note c = d_chainD[OF assms(2)]
  note m = d_seg_mid[OF c(2)]
  note c' = d_del_chain[OF assms(2)]
  note lv = d_del_live[OF assms(2)]
  have st': "d_store ?l' = ?st'" by (simp add: d_deleteNode_fields)
  have D1: "\<exists>xs. d_chain ?st' xs \<and> b \<in> set xs" if "d_live ?st' b" for b
  proof -
    from that lv have b: "b \<noteq> a" "d_live ?st b" by simp_all
    then obtain xs where xs: "d_chain ?st xs" "b \<in> set xs" using i(1) by blast
    from d_chain_disjoint_or_same[OF xs(1) assms(2)] show ?thesis
    proof
      assume "xs = ys @ a # zs"
      then have "b \<in> set (ys @ zs)" using xs(2) b(1) by auto
      then show ?thesis using c' by blast
    next
      assume dj: "set xs \<inter> set (ys @ a # zs) = {}"
      have "p \<in> set ys" if "d_prev (?st ! a) = Some p" for p
        using that m(2) by (cases ys rule: rev_cases) auto
      moreover have "s \<in> set zs" if "d_next (?st ! a) = Some s" for s
        using that m(3) by (cases zs) auto
      ultimately have "d_chain ?st' xs"
        using dj by (intro d_del_frame[OF xs(1)]) auto
      then show ?thesis using xs(2) by blast
    qed
  qed
  have D2: "d_live ?st' h \<and> d_prev (?st' ! h) = None" if hd: "d_head ?l' = Some h" for h
  proof (cases "d_prev (?st ! a) = None")
    case True
    then have ys: "ys = []" using m(2) by (simp add: last_of_None)
    have "d_next (?st ! a) = Some h" using hd True by (simp add: d_deleteNode_fields)
    then obtain zs' where zs: "zs = h # zs'" using m(3) by (cases zs) auto
    have "d_seg ?st' None (h # zs') None" using c' ys zs by (simp add: d_chain_def)
    moreover have "d_live ?st' h" using d_chain_live[OF c', of h] zs by simp
    ultimately show ?thesis by simp
  next
    case False
    then have h: "d_head l = Some h" using hd by (simp add: d_deleteNode_fields split: if_splits)
    note ih = i(2)[OF h]
    have ha: "h \<noteq> a" using ih False by auto
    have ns: "d_next (?st ! a) \<noteq> Some h"
    proof
      assume "d_next (?st ! a) = Some h"
      then obtain zs' where "zs = h # zs'" using m(3) by (cases zs) auto
      then have "d_prev (?st ! h) = Some a" using m(5) by simp
      then show False using ih by simp
    qed
    have "d_prev (?st' ! h) = d_prev (?st ! h)"
    proof (cases "d_prev (?st ! a) = Some h")
      case True
      then show ?thesis using d_del_store_pred(2)[OF True _ ha ns] ih by (simp add: d_live_def)
    next
      case False
      then show ?thesis using d_del_store_other[OF ha False ns] by simp
    qed
    then show ?thesis using ih lv ha by simp
  qed
  have D3: "d_live ?st' t \<and> d_next (?st' ! t) = None" if tl: "d_tail ?l' = Some t" for t
  proof (cases "d_next (?st ! a) = None")
    case True
    then have zs: "zs = []" using m(3) by (simp add: first_of_None)
    have "d_prev (?st ! a) = Some t" using tl True by (simp add: d_deleteNode_fields)
    then obtain ys' where ys: "ys = ys' @ [t]" using m(2) by (cases ys rule: rev_cases) auto
    have "d_seg ?st' None (ys' @ [t]) None" using c' ys zs by (simp add: d_chain_def)
    then have "d_next (?st' ! t) = None" by (simp add: d_seg_snoc)
    moreover have "d_live ?st' t" using d_chain_live[OF c', of t] ys by simp
    ultimately show ?thesis by simp
  next
    case False
    then have t: "d_tail l = Some t" using tl by (simp add: d_deleteNode_fields split: if_splits)
    note it = i(3)[OF t]
    have ta: "t \<noteq> a" using it False by auto
    have np: "d_prev (?st ! a) \<noteq> Some t"
    proof
      assume "d_prev (?st ! a) = Some t"
      then obtain ys' where "ys = ys' @ [t]" using m(2) by (cases ys rule: rev_cases) auto
      then have "d_next (?st ! t) = Some a" using m(4) by (simp add: d_seg_snoc)
      then show False using it by simp
    qed
    have "d_next (?st' ! t) = d_next (?st ! t)"
    proof (cases "d_next (?st ! a) = Some t")
      case True
      then show ?thesis using d_del_store_succ(2)[OF True _ ta np] it by (simp add: d_live_def)
    next
      case False
      then show ?thesis using d_del_store_other[OF ta np False] by simp
    qed
    then show ?thesis using it lv ta by simp
  qed
  show ?thesis
    unfolding d_inv_def using D1 D2 D3 by (simp add: st')
qed

lemma d_validate_Inr:
  "d_validate l p = Inr a \<longleftrightarrow>
     p_container p = d_ident l \<and> p_node p = a \<and> d_live (d_store l) a"
  by (auto simp: d_validate_def d_isDeprecated_def d_live_def)

lemma d_validate_Inl: "d_validate l p = Inl err \<Longrightarrow> err = InvalidPosition"
  by (auto simp: d_validate_def split: if_splits)

lemma d_addAfter_ok:
  assumes "d_validate l p = Inr a"
  shows "snd (d_addAfter l p e) = snd (d_insertBetween l e (Some a) (d_next (d_store l ! a)))"
    "fst (d_addAfter l p e) = Inr \<lparr>p_node = length (d_store l), p_container = d_ident l\<rparr>"
  by (simp_all add: d_addAfter_def assms split_beta d_createPosition_def d_insertBetween_fields)

lemma d_addBefore_ok:
  assumes "d_validate l p = Inr a"
  shows "snd (d_addBefore l p e) = snd (d_insertBetween l e (d_prev (d_store l ! a)) (Some a))"
    "fst (d_addBefore l p e) = Inr \<lparr>p_node = length (d_store l), p_container = d_ident l\<rparr>"
  by (simp_all add: d_addBefore_def assms split_beta d_createPosition_def d_insertBetween_fields)

lemma d_addFirst_ok:
  "snd (d_addFirst l e) = snd (d_insertBetween l e None (d_head l))"
  "fst (d_addFirst l e) = \<lparr>p_node = length (d_store l), p_container = d_ident l\<rparr>"
  by (simp_all add: d_addFirst_def split_beta d_createPosition_def d_insertBetween_fields)

lemma d_addLast_ok:
  "snd (d_addLast l e) = snd (d_insertBetween l e (d_tail l) None)"
  "fst (d_addLast l e) = \<lparr>p_node = length (d_store l), p_container = d_ident l\<rparr>"
  by (simp_all add: d_addLast_def split_beta d_createPosition_def d_insertBetween_fields)

lemma d_delete_ok:
  assumes "d_validate l p = Inr a"
  shows "snd (d_delete l p) = snd (d_deleteNode l a)"
    "fst (d_delete l p) = Inr (fst (d_deleteNode l a))"
  by (simp_all add: d_delete_def assms split_beta)

lemma d_removeFirst_ok:
  assumes "d_head l = Some h"
  shows "snd (d_removeFirst l) = snd (d_deleteNode l h)"
    "fst (d_removeFirst l) = Inr (fst (d_deleteNode l h))"
  by (simp_all add: d_removeFirst_def assms split_beta)

lemma d_removeLast_ok:
  assumes "d_tail l = Some t"
  shows "snd (d_removeLast l) = snd (d_deleteNode l t)"
    "fst (d_removeLast l) = Inr (fst (d_deleteNode l t))"
  by (simp_all add: d_removeLast_def assms split_beta)

lemma d_fail:
  "d_validate l p = Inl err \<Longrightarrow> d_addAfter l p e = (Inl InvalidPosition, l)"
  "d_validate l p = Inl err \<Longrightarrow> d_addBefore l p e = (Inl InvalidPosition, l)"
  "d_validate l p = Inl err \<Longrightarrow> d_delete l p = (Inl InvalidPosition, l)"
  "d_validate l p = Inl err \<Longrightarrow> d_replace l p e = (Inl InvalidPosition, l)"
  "d_head l = None \<Longrightarrow> d_removeFirst l = (Inl EmptyContainer, l)"
  "d_tail l = None \<Longrightarrow> d_removeLast l = (Inl EmptyContainer, l)"
  using d_validate_Inl[of l p err]
  by (simp_all add: d_addAfter_def d_addBefore_def d_delete_def d_replace_def
      d_removeFirst_def d_removeLast_def)

lemma d_replace_fields:
  assumes "d_validate l p = Inr a"
  shows
    "d_store (snd (d_replace l p e)) = (d_store l)[a := (d_store l ! a)\<lparr>d_element := e\<rparr>]"
    "d_head (snd (d_replace l p e)) = d_head l"
    "d_tail (snd (d_replace l p e)) = d_tail l"
    "d_size (snd (d_replace l p e)) = d_size l"
    "d_ident (snd (d_replace l p e)) = d_ident l"
    "fst (d_replace l p e) = Inr (d_element (d_store l ! a))"
  by (simp_all add: d_replace_def assms)

lemma d_replace_links:
  assumes "d_validate l p = Inr a"
  shows "d_next (d_store (snd (d_replace l p e)) ! b) = d_next (d_store l ! b)"
    "d_prev (d_store (snd (d_replace l p e)) ! b) = d_prev (d_store l ! b)"
    "length (d_store (snd (d_replace l p e))) = length (d_store l)"
  using assms
  by (cases "b = a"; simp add: d_replace_fields[OF assms] d_validate_Inr d_live_def)+

lemma d_chain_frame:
  assumes "d_chain st xs"
    and "\<And>x. x \<in> set xs \<Longrightarrow> d_next (st' ! x) = d_next (st ! x) \<and> d_prev (st' ! x) = d_prev (st ! x)"
    and "length st \<le> length st'"
  shows "d_chain st' xs"
  using assms d_seg_frame[of st None xs None st'] by (simp add: d_chain_def)

lemma d_replace_chain:
  assumes "d_validate l p = Inr a"
  shows "d_chain (d_store (snd (d_replace l p e))) xs \<longleftrightarrow> d_chain (d_store l) xs"
proof
  assume "d_chain (d_store l) xs"
  then show "d_chain (d_store (snd (d_replace l p e))) xs"
    by (rule d_chain_frame) (simp_all add: d_replace_links[OF assms])
next
  assume "d_chain (d_store (snd (d_replace l p e))) xs"
  then show "d_chain (d_store l) xs"
    by (rule d_chain_frame) (simp_all add: d_replace_links[OF assms])
qed

lemma d_replace_live:
  assumes "d_validate l p = Inr a"
  shows "d_live (d_store (snd (d_replace l p e))) b \<longleftrightarrow> d_live (d_store l) b"
  by (simp add: d_live_def d_replace_links[OF assms])

lemma d_inv_replace:
  assumes "d_inv l"
  shows "d_inv (snd (d_replace l p e))"
proof (cases "d_validate l p")
  case (Inl err)
  then show ?thesis using assms by (simp add: d_fail)
next
  case (Inr a)
  show ?thesis
    using assms unfolding d_inv_def
    by (simp add: d_replace_live[OF Inr] d_replace_chain[OF Inr] d_replace_links[OF Inr]
        d_replace_fields(2,3)[OF Inr])
qed

lemma d_strict_replace:
  assumes "d_strict l xs"
  shows "d_strict (snd (d_replace l p e)) xs"
proof (cases "d_validate l p")
  case (Inl err)
  then show ?thesis using assms by (simp add: d_fail)
next
  case (Inr a)
  show ?thesis
    using assms unfolding d_strict_def d_abs_def
    by (simp add: d_replace_live[OF Inr] d_replace_chain[OF Inr]
        d_replace_fields(2,3,4)[OF Inr])
qed

lemma d_clear_loop_None [simp]: "d_clear_loop st None = Some st"
  by (subst d_clear_loop.simps) simp

lemma d_clear_loop_Some:
  "d_clear_loop st (Some a) = d_clear_loop (st[a := (st ! a)\<lparr>d_next := Some a\<rparr>]) (d_next (st ! a))"
  by (subst d_clear_loop.simps) simp

lemma d_seg_fwd_update:
  assumes "d_seg st p xs q" "a \<notin> set xs"
  shows "d_seg (st[a := v]) p xs q"
  using assms by (induction xs arbitrary: p) auto

lemma d_clear_loop_seg:
  "d_seg st p xs None \<Longrightarrow> distinct xs \<Longrightarrow> d_clear_loop st (first_of xs None) = Some (d_mark st xs)"
proof (induction xs arbitrary: st p)
  case Nil
  show ?case by simp
next
  case (Cons a as)
  let ?st = "st[a := (st ! a)\<lparr>d_next := Some a\<rparr>]"
  have "d_seg ?st (Some a) as None" using Cons.prems by (intro d_seg_fwd_update) auto
  then have "d_clear_loop ?st (first_of as None) = Some (d_mark ?st as)"
    using Cons.prems by (intro Cons.IH) auto
  then show ?case using Cons.prems by (simp add: d_clear_loop_Some)
qed

lemma d_mark_length [simp]: "length (d_mark st xs) = length st"
  by (induction xs arbitrary: st) auto

lemma d_mark_out: "a \<notin> set xs \<Longrightarrow> d_mark st xs ! a = st ! a"
  by (induction xs arbitrary: st) auto

lemma d_mark_in:
  "a \<in> set xs \<Longrightarrow> \<forall>x\<in>set xs. x < length st \<Longrightarrow> d_next (d_mark st xs ! a) = Some a"
proof (induction xs arbitrary: st)
  case Nil
  then show ?case by simp
next
  case (Cons x xs)
  show ?case
  proof (cases "a \<in> set xs")
    case True
    then show ?thesis using Cons.prems by (simp add: Cons.IH)
  next
    case False
    then have "a = x" using Cons.prems by simp
    then show ?thesis using False Cons.prems by (simp add: d_mark_out)
  qed
qed

lemma d_mark_live:
  assumes "\<forall>x\<in>set xs. x < length st"
  shows "d_live (d_mark st xs) b \<longleftrightarrow> b \<notin> set xs \<and> d_live st b"
proof (cases "b \<in> set xs")
  case True
  then show ?thesis using d_mark_in[OF True assms] by (simp add: d_live_def)
next
  case False
  then show ?thesis by (simp add: d_live_def d_mark_out)
qed

lemma d_clear_fields:
  assumes "d_chain (d_store l) xs" "d_head l = first_of xs None"
  shows "\<exists>l'. d_clear l instant = Some l' \<and>
          d_store l' = (if instant then d_store l else d_mark (d_store l) xs) \<and>
          d_head l' = None \<and> d_tail l' = None \<and> d_size l' = 0 \<and> d_ident l' = d_ident l"
proof -
  note c = d_chainD[OF assms(1)]
  have lp: "d_clear_loop (d_store l) (d_head l) = Some (d_mark (d_store l) xs)"
    using d_clear_loop_seg[OF c(2) c(1)] assms(2) by simp
  have e: "d_head l = None \<Longrightarrow> xs = []" using assms(2) by (simp add: first_of_None)
  show ?thesis
  proof (cases "\<not> instant \<and> d_head l \<noteq> None")
    case True
    then show ?thesis by (simp add: d_clear_def lp)
  next
    case False
    then have "instant \<or> xs = []" using e by blast
    then show ?thesis using False by (auto simp: d_clear_def)
  qed
qed

lemma d_inv_head_chain:
  assumes "d_inv l"
  shows "\<exists>xs. d_chain (d_store l) xs \<and> d_head l = first_of xs None"
proof (cases "d_head l")
  case None
  then show ?thesis by (intro exI[of _ "[]"]) (simp add: d_chain_def)
next
  case (Some h)
  note ih = d_invD(2)[OF assms Some]
  from d_invD(1)[OF assms, of h] ih obtain xs where xs: "d_chain (d_store l) xs" "h \<in> set xs"
    by blast
  from d_chain_head[OF xs] ih obtain zs where "xs = h # zs" by auto
  then show ?thesis using xs(1) Some by auto
qed

lemma d_inv_tail_chain:
  assumes "d_inv l"
  shows "\<exists>xs. d_chain (d_store l) xs \<and> d_tail l = last_of None xs"
proof (cases "d_tail l")
  case None
  then show ?thesis by (intro exI[of _ "[]"]) (simp add: d_chain_def)
next
  case (Some t)
  note it = d_invD(3)[OF assms Some]
  from d_invD(1)[OF assms, of t] it obtain xs where xs: "d_chain (d_store l) xs" "t \<in> set xs"
    by blast
  from d_chain_last[OF xs] it obtain ys where "xs = ys @ [t]" by auto
  then show ?thesis using xs(1) Some by auto
qed

lemma d_inv_clear:
  assumes "d_inv l"
  shows "\<exists>l'. d_clear l instant = Some l' \<and> d_inv l'"
proof -
  from d_inv_head_chain[OF assms] obtain xs
    where xs: "d_chain (d_store l) xs" "d_head l = first_of xs None" by blast
  from d_clear_fields[OF xs, of instant] obtain l'
    where l': "d_clear l instant = Some l'"
      "d_store l' = (if instant then d_store l else d_mark (d_store l) xs)"
      "d_head l' = None" "d_tail l' = None" by blast
  have "\<exists>ys. d_chain (d_store l') ys \<and> b \<in> set ys" if b: "d_live (d_store l') b" for b
  proof (cases instant)
    case True
    then show ?thesis using d_invD(1)[OF assms, of b] b l'(2) by simp
  next
    case False
    then have st: "d_store l' = d_mark (d_store l) xs" using l'(2) by simp
    have "b \<notin> set xs" "d_live (d_store l) b"
      using b d_mark_live[of xs "d_store l" b] d_chainD(3)[OF xs(1)] by (simp_all add: st)
    then obtain ys where ys: "d_chain (d_store l) ys" "b \<in> set ys" "set ys \<inter> set xs = {}"
      using d_invD(1)[OF assms, of b] d_chain_disjoint_or_same[OF _ xs(1)] by blast
    have "d_chain (d_store l') ys"
    proof (rule d_chain_frame[OF ys(1)])
      fix x assume "x \<in> set ys"
      then have "x \<notin> set xs" using ys(3) by auto
      then show "d_next (d_store l' ! x) = d_next (d_store l ! x) \<and>
          d_prev (d_store l' ! x) = d_prev (d_store l ! x)"
        by (simp add: st d_mark_out)
    qed (simp add: st)
    then show ?thesis using ys(2) by blast
  qed
  then have "d_inv l'" using l'(3,4) by (simp add: d_inv_def)
  then show ?thesis using l'(1) by blast
qed

lemma d_inv_insert_after:
  assumes "d_inv l" "d_live (d_store l) a"
  shows "d_inv (snd (d_insertBetween l e (Some a) (d_next (d_store l ! a))))"
proof -
  from d_invD(1)[OF assms] obtain xs where xs: "d_chain (d_store l) xs" "a \<in> set xs" by blast
  then obtain ys zs where s: "xs = (ys @ [a]) @ zs" by (auto simp: in_set_conv_decomp)
  have "d_next (d_store l ! a) = first_of zs None"
    using d_seg_mid(3)[of "d_store l" None ys a zs None] d_chainD(2)[OF xs(1)] s by simp
  then show ?thesis
    using d_inv_insertBetween[OF assms(1) xs(1)[unfolded s], of e] by simp
qed

lemma d_inv_insert_before:
  assumes "d_inv l" "d_live (d_store l) a"
  shows "d_inv (snd (d_insertBetween l e (d_prev (d_store l ! a)) (Some a)))"
proof -
  from d_invD(1)[OF assms] obtain xs where xs: "d_chain (d_store l) xs" "a \<in> set xs" by blast
  then obtain ys zs where s: "xs = ys @ (a # zs)" by (auto simp: in_set_conv_decomp)
  have "d_prev (d_store l ! a) = last_of None ys"
    using d_seg_mid(2)[of "d_store l" None ys a zs None] d_chainD(2)[OF xs(1)] s by simp
  then show ?thesis
    using d_inv_insertBetween[OF assms(1) xs(1)[unfolded s], of e] by simp
qed

lemma d_inv_insert_first:
  assumes "d_inv l"
  shows "d_inv (snd (d_insertBetween l e None (d_head l)))"
proof -
  from d_inv_head_chain[OF assms] obtain xs
    where xs: "d_chain (d_store l) xs" "d_head l = first_of xs None" by blast
  show ?thesis
    using d_inv_insertBetween[OF assms, of "[]" xs e] xs by simp
qed

lemma d_inv_insert_last:
  assumes "d_inv l"
  shows "d_inv (snd (d_insertBetween l e (d_tail l) None))"
proof -
  from d_inv_tail_chain[OF assms] obtain xs
    where xs: "d_chain (d_store l) xs" "d_tail l = last_of None xs" by blast
  show ?thesis
    using d_inv_insertBetween[OF assms, of xs "[]" e] xs by simp
qed

lemma d_inv_delete_live:
  assumes "d_inv l" "d_live (d_store l) a"
  shows "d_inv (snd (d_deleteNode l a))"
proof -
  from d_invD(1)[OF assms] obtain xs where xs: "d_chain (d_store l) xs" "a \<in> set xs" by blast
  then obtain ys zs where s: "xs = ys @ a # zs" by (auto simp: in_set_conv_decomp)
  show ?thesis using d_inv_deleteNode[OF assms(1) xs(1)[unfolded s]] .
qed

lemma d_inv_step:
  assumes "d_inv l"
  shows "\<exists>l'. d_step l op = Some l' \<and> d_inv l'"
proof (cases op)
  case (D_addAfter p e)
  show ?thesis
  proof (cases "d_validate l p")
    case (Inl err)
    then show ?thesis using assms D_addAfter by (simp add: d_fail)
  next
    case (Inr a)
    then show ?thesis
      using d_inv_insert_after[OF assms, of a e] D_addAfter
      by (simp add: d_addAfter_ok[OF Inr] d_validate_Inr)
  qed
next
  case (D_addBefore p e)
  show ?thesis
  proof (cases "d_validate l p")
    case (Inl err)
    then show ?thesis using assms D_addBefore by (simp add: d_fail)
  next
    case (Inr a)
    then show ?thesis
      using d_inv_insert_before[OF assms, of a e] D_addBefore
      by (simp add: d_addBefore_ok[OF Inr] d_validate_Inr)
  qed
next
  case (D_addFirst e)
  then show ?thesis using d_inv_insert_first[OF assms, of e] by (simp add: d_addFirst_ok)
next
  case (D_addLast e)
  then show ?thesis using d_inv_insert_last[OF assms, of e] by (simp add: d_addLast_ok)
next
  case (D_clear instant)
  then show ?thesis using d_inv_clear[OF assms, of instant] by simp
next
  case (D_delete p)
  show ?thesis
  proof (cases "d_validate l p")
    case (Inl err)
    then show ?thesis using assms D_delete by (simp add: d_fail)
  next
    case (Inr a)
    then show ?thesis
      using d_inv_delete_live[OF assms, of a] D_delete
      by (simp add: d_delete_ok[OF Inr] d_validate_Inr)
  qed
next
  case D_removeFirst
  show ?thesis
  proof (cases "d_head l")
    case None
    then show ?thesis using assms D_removeFirst by (simp add: d_fail)
  next
    case (Some h)
    then show ?thesis
      using d_inv_delete_live[OF assms, of h] d_invD(2)[OF assms Some] D_removeFirst
      by (simp add: d_removeFirst_ok[OF Some])
  qed
next
  case D_removeLast
  show ?thesis
  proof (cases "d_tail l")
    case None
    then show ?thesis using assms D_removeLast by (simp add: d_fail)
  next
    case (Some t)
    then show ?thesis
      using d_inv_delete_live[OF assms, of t] d_invD(3)[OF assms Some] D_removeLast
      by (simp add: d_removeLast_ok[OF Some])
  qed
next
  case (D_replace p e)
  then show ?thesis using d_inv_replace[OF assms, of p e] by simp
qed

lemma d_inv_run:
  assumes "d_inv l"
  shows "\<exists>l'. d_run l ops = Some l' \<and> d_inv l'"
  using assms
proof (induction ops arbitrary: l)
  case Nil
  then show ?case by simp
next
  case (Cons op ops)
  from d_inv_step[OF Cons.prems, of op] obtain l1 where 1: "d_step l op = Some l1" "d_inv l1"
    by blast
  from Cons.IH[OF 1(2)] show ?case using 1(1) by simp
qed

lemma d_strict_empty: "d_strict (d_empty i) []"
  by (simp add: d_strict_def d_abs_def d_chain_def d_live_def) (simp add: d_empty_def)

lemma d_strict_valid:
  assumes "d_strict l xs" "d_validate l p = Inr a"
  shows "\<exists>ys zs. xs = ys @ a # zs"
  using d_strictD(3)[OF assms(1), of a] assms(2)
  by (auto simp: d_validate_Inr in_set_conv_decomp)

lemma d_strict_step:
  assumes "d_strict l xs" "op \<noteq> D_clear True"
  shows "\<exists>l' xs'. d_step l op = Some l' \<and> d_strict l' xs'"
proof -
  note d = d_strictD[OF assms(1)]
  note b = d_absD[OF d(1)]
  note c = d_chainD[OF b(1)]
  show ?thesis
  proof (cases op)
    case (D_addAfter p e)
    show ?thesis
    proof (cases "d_validate l p")
      case (Inl err)
      then show ?thesis using assms D_addAfter by (auto simp: d_fail)
    next
      case (Inr a)
      from d_strict_valid[OF assms(1) Inr] obtain ys zs where s: "xs = (ys @ [a]) @ zs" by auto
      have "d_next (d_store l ! a) = first_of zs None"
        using d_seg_mid(3)[of "d_store l" None ys a zs None] c(2) s by simp
      then show ?thesis
        using d_strict_insertBetween[OF assms(1)[unfolded s], of e] D_addAfter
        by (auto simp: d_addAfter_ok[OF Inr])
    qed
  next
    case (D_addBefore p e)
    show ?thesis
    proof (cases "d_validate l p")
      case (Inl err)
      then show ?thesis using assms D_addBefore by (auto simp: d_fail)
    next
      case (Inr a)
      from d_strict_valid[OF assms(1) Inr] obtain ys zs where s: "xs = ys @ (a # zs)" by auto
      have "d_prev (d_store l ! a) = last_of None ys"
        using d_seg_mid(2)[of "d_store l" None ys a zs None] c(2) s by simp
      then show ?thesis
        using d_strict_insertBetween[OF assms(1)[unfolded s], of e] D_addBefore
        by (auto simp: d_addBefore_ok[OF Inr])
    qed
  next
    case (D_addFirst e)
    then show ?thesis
      using d_strict_insertBetween[of l "[]" xs e] assms(1) b(2)
      by (auto simp: d_addFirst_ok)
  next
    case (D_addLast e)
    then show ?thesis
      using d_strict_insertBetween[of l xs "[]" e] assms(1) b(3)
      by (auto simp: d_addLast_ok)
  next
    case (D_clear instant)
    then have ni: "\<not> instant" using assms(2) by simp
    from d_clear_fields[OF b(1) b(2), of False] obtain l'
      where l': "d_clear l False = Some l'" "d_store l' = d_mark (d_store l) xs"
        "d_head l' = None" "d_tail l' = None" "d_size l' = 0" by auto
    have "\<not> d_live (d_store l') a" for a
      using d_mark_live[of xs "d_store l" a] c(3) d(3)[of a] by (auto simp: l'(2))
    then have "d_strict l' []"
      using l' by (simp add: d_strict_def d_abs_def d_chain_def)
    then show ?thesis using D_clear ni l'(1) by auto
  next
    case (D_delete p)
    show ?thesis
    proof (cases "d_validate l p")
      case (Inl err)
      then show ?thesis using assms D_delete by (auto simp: d_fail)
    next
      case (Inr a)
      from d_strict_valid[OF assms(1) Inr] obtain ys zs where s: "xs = ys @ a # zs" by auto
      show ?thesis
        using d_strict_deleteNode[OF assms(1)[unfolded s]] D_delete
        by (auto simp: d_delete_ok[OF Inr])
    qed
  next
    case D_removeFirst
    show ?thesis
    proof (cases "d_head l")
      case None
      then show ?thesis using assms D_removeFirst by (auto simp: d_fail)
    next
      case (Some h)
      then obtain zs where s: "xs = [] @ h # zs" using b(2) by (cases xs) auto
      show ?thesis
        using d_strict_deleteNode[OF assms(1)[unfolded s]] D_removeFirst
        by (auto simp: d_removeFirst_ok[OF Some])
    qed
  next
    case D_removeLast
    show ?thesis
    proof (cases "d_tail l")
      case None
      then show ?thesis using assms D_removeLast by (auto simp: d_fail)
    next
      case (Some t)
      then obtain ys where s: "xs = ys @ t # []" using b(3) by (cases xs rule: rev_cases) auto
      show ?thesis
        using d_strict_deleteNode[OF assms(1)[unfolded s]] D_removeLast
        by (auto simp: d_removeLast_ok[OF Some])
    qed
  next
    case (D_replace p e)
    then show ?thesis using d_strict_replace[OF assms(1), of p e] by auto
  qed
qed

lemma d_strict_run:
  assumes "d_strict l xs" "D_clear True \<notin> set ops"
  shows "\<exists>l' xs'. d_run l ops = Some l' \<and> d_strict l' xs'"
  using assms
proof (induction ops arbitrary: l xs)
  case Nil
  then show ?case by auto
next
  case (Cons op ops)
  from d_strict_step[OF Cons.prems(1), of op] Cons.prems(2) obtain l1 xs1
    where 1: "d_step l op = Some l1" "d_strict l1 xs1" by auto
  from Cons.IH[OF 1(2)] Cons.prems(2) show ?case using 1(1) by simp
qed

lemma d_walk_None [simp]: "d_walk st None = Some []"
  by (subst d_walk.simps) simp

lemma d_walk_Some: "d_walk st (Some a) = Option.bind (d_walk st (d_next (st ! a))) (\<lambda>r. Some (a # r))"
  by (subst d_walk.simps) simp

lemma d_seg_walk: "d_seg st p xs None \<Longrightarrow> d_walk st (first_of xs None) = Some xs"
  by (induction xs arbitrary: p) (auto simp: d_walk_Some)

lemma d_iterate_from_None [simp]: "d_iterate_from st None = Some []"
  by (subst d_iterate_from.simps) simp

lemma d_iterate_from_Some:
  "d_iterate_from st (Some a) =
     Option.bind (d_iterate_from st (d_next (st ! a))) (\<lambda>r. Some (d_element (st ! a) # r))"
  by (subst d_iterate_from.simps) simp

lemma d_seg_iterate:
  "d_seg st p xs None \<Longrightarrow>
   d_iterate_from st (first_of xs None) = Some (map (\<lambda>a. d_element (st ! a)) xs)"
  by (induction xs arbitrary: p) (auto simp: d_iterate_from_Some)

lemma d_abs_walk: "d_abs l xs \<Longrightarrow> d_walk (d_store l) (d_head l) = Some xs"
  using d_seg_walk[of "d_store l" None xs] by (simp add: d_abs_def d_chain_def)

lemma d_abs_iterator:
  "d_abs l xs \<Longrightarrow> d_iterator l = Some (map (\<lambda>a. d_element (d_store l ! a)) xs)"
  using d_seg_iterate[of "d_store l" None xs]
  by (auto simp: d_abs_def d_chain_def d_iterator_def first_of_None)

lemma s_abs_tail_is_last: "s_abs l xs \<Longrightarrow> s_tail_is_last l"
  using s_abs_walk[of l xs] s_absD(4)[of l xs] by (auto simp: s_tail_is_last_def)

lemma d_abs_tail_is_last: "d_abs l xs \<Longrightarrow> d_tail_is_last l"
  using d_abs_walk[of l xs] d_absD(3)[of l xs] by (auto simp: d_tail_is_last_def)

lemma d_inv_walk:
  assumes "d_inv l"
  shows "\<exists>xs. d_walk (d_store l) (d_head l) = Some xs \<and> d_chain (d_store l) xs \<and>
    d_head l = first_of xs None"
proof -
  from d_inv_head_chain[OF assms] obtain xs
    where xs: "d_chain (d_store l) xs" "d_head l = first_of xs None" by blast
  then have "d_walk (d_store l) (d_head l) = Some xs"
    using d_seg_walk[of "d_store l" None xs] by (simp add: d_chain_def)
  then show ?thesis using xs by blast
qed

lemma d_inv_walk_abs:
  assumes "d_inv l" "d_walk (d_store l) (d_head l) = Some xs" "d_tail l = last_of None xs"
  shows "d_abs l xs"
  using d_inv_walk[OF assms(1)] assms(2,3) by (auto simp: d_abs_def)

lemma d_strict_count:
  assumes "d_strict l xs"
  shows "d_walk (d_store l) (d_head l) = Some xs"
    "d_size l = int (length (filter (\<lambda>a. \<not> d_isDeprecated l a) xs))"
proof -
  note d = d_strictD[OF assms]
  show "d_walk (d_store l) (d_head l) = Some xs" by (rule d_abs_walk[OF d(1)])
  have "filter (\<lambda>a. \<not> d_isDeprecated l a) xs = xs"
    using d_chain_live[OF d_absD(1)[OF d(1)]] by (simp add: d_isDeprecated_def d_live_def)
  then show "d_size l = int (length (filter (\<lambda>a. \<not> d_isDeprecated l a) xs))"
    using d(2) by simp
qed

text \<open>Insertions and deletions seen from the node they are given.\<close>

lemma d_insert_after_live:
  assumes "d_inv l" "d_live (d_store l) a"
  shows "d_live (d_store (snd (d_insertBetween l e (Some a) (d_next (d_store l ! a))))) b
     \<longleftrightarrow> b = length (d_store l) \<or> d_live (d_store l) b"
proof -
  from d_invD(1)[OF assms] obtain xs where xs: "d_chain (d_store l) xs" "a \<in> set xs" by blast
  then obtain ys zs where s: "xs = (ys @ [a]) @ zs" by (auto simp: in_set_conv_decomp)
  have "d_next (d_store l ! a) = first_of zs None"
    using d_seg_mid(3)[of "d_store l" None ys a zs None] d_chainD(2)[OF xs(1)] s by simp
  then show ?thesis
    using d_ins_live[OF xs(1)[unfolded s], of e b] by (simp add: d_insertBetween_fields)
qed

lemma d_insert_before_live:
  assumes "d_inv l" "d_live (d_store l) a"
  shows "d_live (d_store (snd (d_insertBetween l e (d_prev (d_store l ! a)) (Some a)))) b
     \<longleftrightarrow> b = length (d_store l) \<or> d_live (d_store l) b"
proof -
  from d_invD(1)[OF assms] obtain xs where xs: "d_chain (d_store l) xs" "a \<in> set xs" by blast
  then obtain ys zs where s: "xs = ys @ (a # zs)" by (auto simp: in_set_conv_decomp)
  have "d_prev (d_store l ! a) = last_of None ys"
    using d_seg_mid(2)[of "d_store l" None ys a zs None] d_chainD(2)[OF xs(1)] s by simp
  then show ?thesis
    using d_ins_live[OF xs(1)[unfolded s], of e b] by (simp add: d_insertBetween_fields)
qed

lemma d_insert_first_live:
  assumes "d_inv l"
  shows "d_live (d_store (snd (d_insertBetween l e None (d_head l)))) b
     \<longleftrightarrow> b = length (d_store l) \<or> d_live (d_store l) b"
proof -
  from d_inv_head_chain[OF assms] obtain xs
    where xs: "d_chain (d_store l) xs" "d_head l = first_of xs None" by blast
  show ?thesis
    using d_ins_live[of "d_store l" "[]" xs e b] xs by (simp add: d_insertBetween_fields)
qed

lemma d_insert_last_live:
  assumes "d_inv l"
  shows "d_live (d_store (snd (d_insertBetween l e (d_tail l) None))) b
     \<longleftrightarrow> b = length (d_store l) \<or> d_live (d_store l) b"
proof -
  from d_inv_tail_chain[OF assms] obtain xs
    where xs: "d_chain (d_store l) xs" "d_tail l = last_of None xs" by blast
  show ?thesis
    using d_ins_live[of "d_store l" xs "[]" e b] xs by (simp add: d_insertBetween_fields)
qed

lemma d_delete_live:
  assumes "d_inv l" "d_live (d_store l) a"
  shows "d_live (d_store (snd (d_deleteNode l a))) b \<longleftrightarrow> b \<noteq> a \<and> d_live (d_store l) b"
proof -
  from d_invD(1)[OF assms] obtain xs where xs: "d_chain (d_store l) xs" "a \<in> set xs" by blast
  then obtain ys zs where s: "xs = ys @ a # zs" by (auto simp: in_set_conv_decomp)
  show ?thesis using d_del_live[OF xs(1)[unfolded s], of b] by (simp add: d_deleteNode_fields)
qed

lemma d_step_live:
  assumes "d_inv l" "d_step l op = Some l'"
  shows "length (d_store l) \<le> length (d_store l')"
    "d_live (d_store l') b \<Longrightarrow> b < length (d_store l) \<Longrightarrow> d_live (d_store l) b"
proof -
  have "length (d_store l) \<le> length (d_store l') \<and>
      (d_live (d_store l') b \<longrightarrow> b < length (d_store l) \<longrightarrow> d_live (d_store l) b)"
  proof (cases op)
    case (D_addAfter p e)
    show ?thesis
    proof (cases "d_validate l p")
      case (Inl err)
      then show ?thesis using assms D_addAfter by (auto simp: d_fail)
    next
      case (Inr a)
      then have a: "d_live (d_store l) a" by (simp add: d_validate_Inr)
      show ?thesis
        using assms(2) D_addAfter d_insert_after_live[OF assms(1) a, of e b]
        by (auto simp: d_addAfter_ok[OF Inr] d_insertBetween_fields)
    qed
  next
    case (D_addBefore p e)
    show ?thesis
    proof (cases "d_validate l p")
      case (Inl err)
      then show ?thesis using assms D_addBefore by (auto simp: d_fail)
    next
      case (Inr a)
      then have a: "d_live (d_store l) a" by (simp add: d_validate_Inr)
      show ?thesis
        using assms(2) D_addBefore d_insert_before_live[OF assms(1) a, of e b]
        by (auto simp: d_addBefore_ok[OF Inr] d_insertBetween_fields)
    qed
  next
    case (D_addFirst e)
    then show ?thesis
      using assms(2) d_insert_first_live[OF assms(1), of e b]
      by (auto simp: d_addFirst_ok d_insertBetween_fields)
  next
    case (D_addLast e)
    then show ?thesis
      using assms(2) d_insert_last_live[OF assms(1), of e b]
      by (auto simp: d_addLast_ok d_insertBetween_fields)
  next
    case (D_clear instant)
    from d_inv_head_chain[OF assms(1)] obtain xs
      where xs: "d_chain (d_store l) xs" "d_head l = first_of xs None" by blast
    from d_clear_fields[OF xs, of instant] assms(2) D_clear
    have "d_store l' = (if instant then d_store l else d_mark (d_store l) xs)" by auto
    then show ?thesis using d_mark_live[of xs "d_store l" b] d_chainD(3)[OF xs(1)] by auto
  next
    case (D_delete p)
    show ?thesis
    proof (cases "d_validate l p")
      case (Inl err)
      then show ?thesis using assms D_delete by (auto simp: d_fail)
    next
      case (Inr a)
      then have a: "d_live (d_store l) a" by (simp add: d_validate_Inr)
      show ?thesis
        using assms(2) D_delete d_delete_live[OF assms(1) a, of b]
        by (auto simp: d_delete_ok[OF Inr] d_deleteNode_fields)
    qed
  next
    case D_removeFirst
    show ?thesis
    proof (cases "d_head l")
      case None
      then show ?thesis using assms D_removeFirst by (auto simp: d_fail)
    next
      case (Some h)
      then have a: "d_live (d_store l) h" using d_invD(2)[OF assms(1)] by simp
      show ?thesis
        using assms(2) D_removeFirst d_delete_live[OF assms(1) a, of b]
        by (auto simp: d_removeFirst_ok[OF Some] d_deleteNode_fields)
    qed
  next
    case D_removeLast
    show ?thesis
    proof (cases "d_tail l")
      case None
      then show ?thesis using assms D_removeLast by (auto simp: d_fail)
    next
      case (Some t)
      then have a: "d_live (d_store l) t" using d_invD(3)[OF assms(1)] by simp
      show ?thesis
        using assms(2) D_removeLast d_delete_live[OF assms(1) a, of b]
        by (auto simp: d_removeLast_ok[OF Some] d_deleteNode_fields)
    qed
  next
    case (D_replace p e)
    show ?thesis
    proof (cases "d_validate l p")
      case (Inl err)
      then show ?thesis using assms D_replace by (auto simp: d_fail)
    next
      case (Inr a)
      then show ?thesis using assms(2) D_replace
        by (auto simp: d_replace_live[OF Inr] d_replace_links[OF Inr])
    qed
  qed
  then show "length (d_store l) \<le> length (d_store l')"
    "d_live (d_store l') b \<Longrightarrow> b < length (d_store l) \<Longrightarrow> d_live (d_store l) b"
    by simp_all
qed

lemma d_run_deprecated:
  assumes "d_inv l" "a < length (d_store l)" "\<not> d_live (d_store l) a" "d_run l ops = Some l'"
  shows "a < length (d_store l') \<and> \<not> d_live (d_store l') a"
  using assms
proof (induction ops arbitrary: l)
  case Nil
  then show ?case by simp
next
  case (Cons op ops)
  from d_inv_step[OF Cons.prems(1), of op] obtain l1
    where 1: "d_step l op = Some l1" "d_inv l1" by blast
  note 2 = d_step_live[OF Cons.prems(1) 1(1)]
  have "a < length (d_store l1)" "\<not> d_live (d_store l1) a"
    using 2(1) 2(2)[of a] Cons.prems(2,3) by auto
  from Cons.IH[OF 1(2) this] show ?case using Cons.prems(4) 1(1) by simp
qed

lemma d_validate_dead:
  "\<not> d_live (d_store l) (p_node p) \<Longrightarrow> d_validate l p = Inl InvalidPosition"
  by (auto simp: d_validate_def d_isDeprecated_def d_live_def)

lemma d_deleteNode_others:
  assumes "d_inv l" "d_live (d_store l) a" "d_validate l q = Inr b" "b \<noteq> a"
  shows "d_validate (snd (d_deleteNode l a)) q = Inr b"
    "fst (d_replace (snd (d_deleteNode l a)) q y) = Inr (d_element (d_store l ! b))"
proof -
  show v: "d_validate (snd (d_deleteNode l a)) q = Inr b"
    using assms(3,4) d_delete_live[OF assms(1,2), of b]
    by (simp add: d_validate_Inr d_deleteNode_fields(5))
  show "fst (d_replace (snd (d_deleteNode l a)) q y) = Inr (d_element (d_store l ! b))"
    by (simp add: d_replace_fields[OF v] d_deleteNode_fields d_del_store_element)
qed

lemma d_deleteNode_removed:
  assumes "d_inv l" "d_live (d_store l) a"
  shows "a < length (d_store (snd (d_deleteNode l a)))"
    "d_isDeprecated (snd (d_deleteNode l a)) a"
    "fst (d_deleteNode l a) = d_element (d_store l ! a)"
  using assms(2) d_del_store_self(1)[of a "d_store l"]
  by (simp_all add: d_deleteNode_fields d_del_store_element d_isDeprecated_def d_live_def)

lemma d_abs_bound:
  assumes "d_abs l xs"
  shows "\<And>x. x \<in> set xs \<Longrightarrow> x < length (d_store l)"
    "\<And>t. d_tail l = Some t \<Longrightarrow> t < length (d_store l)"
    "\<And>h. d_head l = Some h \<Longrightarrow> h < length (d_store l)"
proof -
  note b = d_absD[OF assms]
  show x: "\<And>x. x \<in> set xs \<Longrightarrow> x < length (d_store l)" by (rule d_chainD(3)[OF b(1)])
  show "t < length (d_store l)" if "d_tail l = Some t" for t
    using that b(3) x[of t] by (cases xs rule: rev_cases) auto
  show "h < length (d_store l)" if "d_head l = Some h" for h
    using that b(2) x[of h] by (cases xs) auto
qed

lemma d_abs_addFirst:
  assumes "d_abs l xs"
  shows "d_abs (snd (d_addFirst l e)) (length (d_store l) # xs)"
  using d_abs_insertBetween[of l "[]" xs e] assms d_absD(2)[OF assms]
  by (simp add: d_addFirst_ok)

lemma d_abs_addLast:
  assumes "d_abs l xs"
  shows "d_abs (snd (d_addLast l e)) (xs @ [length (d_store l)])"
  using d_abs_insertBetween[of l xs "[]" e] assms d_absD(3)[OF assms]
  by (simp add: d_addLast_ok)

lemma d_abs_addAfter:
  assumes "d_abs l (ys @ a # zs)" "d_validate l p = Inr a"
  shows "d_abs (snd (d_addAfter l p e)) (ys @ a # length (d_store l) # zs)"
proof -
  have "d_next (d_store l ! a) = first_of zs None"
    using d_seg_mid(3)[OF d_chainD(2)[OF d_absD(1)[OF assms(1)]]] .
  then show ?thesis
    using d_abs_insertBetween[of l "ys @ [a]" zs e] assms(1)
    by (simp add: d_addAfter_ok[OF assms(2)])
qed

lemma d_abs_addBefore:
  assumes "d_abs l (ys @ a # zs)" "d_validate l p = Inr a"
  shows "d_abs (snd (d_addBefore l p e)) (ys @ length (d_store l) # a # zs)"
proof -
  have "d_prev (d_store l ! a) = last_of None ys"
    using d_seg_mid(2)[OF d_chainD(2)[OF d_absD(1)[OF assms(1)]]] .
  then show ?thesis
    using d_abs_insertBetween[of l ys "a # zs" e] assms(1)
    by (simp add: d_addBefore_ok[OF assms(2)])
qed

lemma d_addLast_elements:
  assumes "d_abs l xs"
  shows "map (\<lambda>a. d_element (d_store (snd (d_addLast l e)) ! a)) (xs @ [length (d_store l)])
       = map (\<lambda>a. d_element (d_store l ! a)) xs @ [e]"
proof -
  note bd = d_abs_bound[OF assms]
  have old: "d_element (d_store (snd (d_addLast l e)) ! a) = d_element (d_store l ! a)"
    if "a \<in> set xs" for a
    using bd(1)[OF that] by (simp add: d_addLast_ok d_insertBetween_fields d_ins_store_element)
  have "d_element (d_ins_store (d_store l) e (d_tail l) None ! length (d_store l)) = e"
    by (rule d_ins_store_new(3)) (simp_all add: bd(2))
  then have new: "d_element (d_store (snd (d_addLast l e)) ! length (d_store l)) = e"
    by (simp add: d_addLast_ok d_insertBetween_fields)
  show ?thesis using old new by simp
qed

lemma d_fold_addLast_elements:
  assumes "d_strict l xs"
  shows "\<exists>xs'. d_strict (fold (\<lambda>el l. snd (d_addLast l el)) els l) xs' \<and>
     map (\<lambda>a. d_element (d_store (fold (\<lambda>el l. snd (d_addLast l el)) els l) ! a)) xs'
       = map (\<lambda>a. d_element (d_store l ! a)) xs @ els"
  using assms
proof (induction els arbitrary: l xs)
  case Nil
  then show ?case by auto
next
  case (Cons e es)
  let ?l1 = "snd (d_addLast l e)"
  let ?f = "fold (\<lambda>el l. snd (d_addLast l el)) es ?l1"
  note a = d_strictD(1)[OF Cons.prems]
  have s1: "d_strict ?l1 (xs @ [length (d_store l)])"
    using d_strict_insertBetween[of l xs "[]" e] Cons.prems d_absD(3)[OF a]
    by (simp add: d_addLast_ok)
  from Cons.IH[OF s1] obtain xs'
    where 1: "d_strict ?f xs'"
      "map (\<lambda>a. d_element (d_store ?f ! a)) xs'
         = map (\<lambda>a. d_element (d_store ?l1 ! a)) (xs @ [length (d_store l)]) @ es"
    by blast
  have "map (\<lambda>a. d_element (d_store ?f ! a)) xs'
         = (map (\<lambda>a. d_element (d_store l ! a)) xs @ [e]) @ es"
    using 1(2) by (simp only: d_addLast_elements[OF a])
  then show ?case using 1(1) by auto
qed

lemma d_strict_new: "\<exists>xs. d_strict (DoublyLinkedList i els) xs"
  using d_fold_addLast_elements[OF d_strict_empty, of els i] by (auto simp: DoublyLinkedList_def)

lemma d_iterator_new: "d_iterator (DoublyLinkedList i arr) = Some arr"
proof -
  from d_fold_addLast_elements[OF d_strict_empty, of arr i] obtain xs
    where "d_strict (DoublyLinkedList i arr) xs"
      "map (\<lambda>a. d_element (d_store (DoublyLinkedList i arr) ! a)) xs = arr"
    by (auto simp: DoublyLinkedList_def d_empty_def)
  then show ?thesis using d_abs_iterator[of "DoublyLinkedList i arr" xs] d_strictD(1) by fastforce
qed

lemma s_fold_addLast_strict:
  assumes "s_strict l xs"
  shows "\<exists>xs'. s_strict (fold (\<lambda>el l. snd (s_addLast l el)) els l) xs'"
  using assms
proof (induction els arbitrary: l xs)
  case Nil
  then show ?case by auto
next
  case (Cons e es)
  show ?case using Cons.IH[OF s_strict_addLast[OF Cons.prems, of e]] by simp
qed

lemma s_strict_new: "\<exists>xs. s_strict (SinglyLinkedList i els) xs"
  unfolding SinglyLinkedList_def by (rule s_fold_addLast_strict[OF s_strict_empty])

lemma s_reach_abs:
  assumes "s_run (SinglyLinkedList i els) ops = Some l"
  shows "\<exists>xs. s_abs l xs"
  using s_reachable_abs[of i els ops] assms by auto

lemma s_reach_strict:
  assumes "s_run (SinglyLinkedList i els) ops = Some l" "S_clear True \<notin> set ops"
  shows "\<exists>xs. s_strict l xs"
proof -
  from s_strict_new[of i els] obtain xs0 where "s_strict (SinglyLinkedList i els) xs0" by blast
  from s_strict_run[OF this assms(2)] assms(1) show ?thesis by auto
qed

lemma d_reach_inv:
  assumes "d_run (DoublyLinkedList i els) ops = Some l"
  shows "d_inv l"
proof -
  from d_strict_new[of i els] obtain xs0 where "d_strict (DoublyLinkedList i els) xs0" by blast
  from d_inv_run[OF d_strict_inv[OF this], of ops] assms show ?thesis by auto
qed

lemma d_reach_strict:
  assumes "d_run (DoublyLinkedList i els) ops = Some l" "D_clear True \<notin> set ops"
  shows "\<exists>xs. d_strict l xs"
proof -
  from d_strict_new[of i els] obtain xs0 where "d_strict (DoublyLinkedList i els) xs0" by blast
  from d_strict_run[OF this assms(2)] assms(1) show ?thesis by auto
qed

lemma d_addAfter_last:
  assumes "d_inv l" "d_getLast l = Some p"
  shows "\<exists>q l'. d_addAfter l p e = (Inr q, l') \<and> d_getLast l' = Some q \<and>
     d_element (d_store l' ! p_node q) = e \<and> q \<noteq> p"
proof -
  from assms(2) obtain t where t: "d_tail l = Some t" "p = \<lparr>p_node = t, p_container = d_ident l\<rparr>"
    by (auto simp: d_getLast_def d_createPosition_def split: option.splits)
  note it = d_invD(3)[OF assms(1) t(1)]
  have v: "d_validate l p = Inr t" using it t(2) by (simp add: d_validate_Inr)
  have tb: "t < length (d_store l)" using it by (simp add: d_live_def)
  let ?l' = "snd (d_addAfter l p e)"
  have l': "?l' = snd (d_insertBetween l e (Some t) None)"
    using it by (simp add: d_addAfter_ok[OF v])
  have "d_getLast ?l' = Some \<lparr>p_node = length (d_store l), p_container = d_ident l\<rparr>"
    by (simp add: l' d_getLast_def d_createPosition_def d_insertBetween_fields)
  moreover have "d_element (d_ins_store (d_store l) e (Some t) None ! length (d_store l)) = e"
    by (rule d_ins_store_new(3)) (simp_all add: tb)
  then have "d_element (d_store ?l' ! length (d_store l)) = e"
    by (simp add: l' d_insertBetween_fields)
  moreover have "\<lparr>p_node = length (d_store l), p_container = d_ident l\<rparr> \<noteq> p"
    using tb t(2) by simp
  ultimately show ?thesis using d_addAfter_ok(2)[OF v, of e] by (cases "d_addAfter l p e") auto
qed


section \<open>Properties of the lists\<close>

lemma s_dead_forever:
  assumes "s_abs l xs" "p_node p < length (s_store l)" "s_isDeprecated l (p_node p)"
  shows "s_position_dead l p"
  unfolding s_position_dead_def
proof (intro conjI allI impI)
  show "s_isDeprecated l (p_node p)" by (rule assms(3))
  fix ops l' assume "s_run l ops = Some l'"
  from s_run_deprecated[OF assms(1,2) _ this] assms(3)
  show "s_validate l' p = Inl InvalidPosition"
    by (simp add: s_validate_deprecated s_isDeprecated_def)
qed

lemma d_dead_forever:
  assumes "d_inv l" "p_node p < length (d_store l)" "d_isDeprecated l (p_node p)"
  shows "d_position_dead l p"
  unfolding d_position_dead_def
proof (intro conjI allI impI)
  show "d_isDeprecated l (p_node p)" by (rule assms(3))
  fix ops l' assume "d_run l ops = Some l'"
  from d_run_deprecated[OF assms(1,2) _ this] assms(3)
  show "d_validate l' p = Inl InvalidPosition"
    by (simp add: d_validate_dead d_isDeprecated_def d_live_def)
qed

lemma s_removeFirst_liveness:
  assumes "s_abs l xs" "s_getFirst l = Some p"
  shows "\<exists>x l'. s_removeFirst l = (Inr x, l') \<and> x = s_element (s_store l ! p_node p) \<and>
     s_position_dead l' p \<and> s_others_live l l' p"
proof -
  from assms(2) obtain h where h: "s_head l = Some h" "p = \<lparr>p_node = h, p_container = s_ident l\<rparr>"
    by (auto simp: s_getFirst_def s_createPosition_def split: option.splits)
  note d = s_absD[OF assms(1)]
  from h(1) d(3) obtain xs' where xs: "xs = h # xs'" by (cases xs) auto
  have hb: "h < length (s_store l)" using d(5) xs by simp
  let ?l' = "snd (s_removeFirst l)"
  note f = s_removeFirst_fields[OF h(1)]
  have a': "s_abs ?l' xs'" using s_abs_removeFirst assms(1) xs by blast
  have dead: "s_position_dead ?l' p"
    using hb by (intro s_dead_forever[OF a']) (simp_all add: h(2) f s_isDeprecated_def)
  have oth: "s_others_live l ?l' p"
    unfolding s_others_live_def
  proof (intro allI impI, elim conjE)
    fix q b y assume q: "s_validate l q = Inr b" "q \<noteq> p"
    then have "b \<noteq> h" using h(2) by (auto simp: s_validate_Inr)
    from s_removeFirst_others[OF h(1) q(1) this]
    show "s_validate ?l' q = Inr b \<and> fst (s_replace ?l' q y) = Inr (s_element (s_store l ! b))"
      by simp
  qed
  have "s_removeFirst l = (Inr (s_element (s_store l ! h)), ?l')"
    using f(6)[OF hb] by (cases "s_removeFirst l") simp
  moreover have "s_element (s_store l ! h) = s_element (s_store l ! p_node p)"
    by (simp add: h(2))
  ultimately show ?thesis using dead oth by blast
qed

lemma d_deleteNode_liveness:
  assumes "d_inv l" "d_live (d_store l) a" "p = \<lparr>p_node = a, p_container = d_ident l\<rparr>"
  shows "fst (d_deleteNode l a) = d_element (d_store l ! p_node p) \<and>
     d_position_dead (snd (d_deleteNode l a)) p \<and> d_others_live l (snd (d_deleteNode l a)) p"
proof -
  let ?l' = "snd (d_deleteNode l a)"
  note r = d_deleteNode_removed[OF assms(1,2)]
  have dead: "d_position_dead ?l' p"
    using r(1,2) by (intro d_dead_forever[OF d_inv_delete_live[OF assms(1,2)]]) (simp_all add: assms(3))
  have oth: "d_others_live l ?l' p"
    unfolding d_others_live_def
  proof (intro allI impI, elim conjE)
    fix q b y assume q: "d_validate l q = Inr b" "q \<noteq> p"
    then have "b \<noteq> a" using assms(3) by (auto simp: d_validate_Inr)
    from d_deleteNode_others[OF assms(1,2) q(1) this]
    show "d_validate ?l' q = Inr b \<and> fst (d_replace ?l' q y) = Inr (d_element (d_store l ! b))"
      by simp
  qed
  show ?thesis using r(3) dead oth assms(3) by simp
qed

lemma d_removeFirst_liveness:
  assumes "d_inv l" "d_getFirst l = Some p"
  shows "\<exists>x l'. d_removeFirst l = (Inr x, l') \<and> x = d_element (d_store l ! p_node p) \<and>
     d_position_dead l' p \<and> d_others_live l l' p"
proof -
  from assms(2) obtain h where h: "d_head l = Some h" "p = \<lparr>p_node = h, p_container = d_ident l\<rparr>"
    by (auto simp: d_getFirst_def d_createPosition_def split: option.splits)
  have lv: "d_live (d_store l) h" using d_invD(2)[OF assms(1) h(1)] by simp
  from d_deleteNode_liveness[OF assms(1) lv h(2)] d_removeFirst_ok[OF h(1)]
  show ?thesis by (cases "d_removeFirst l") auto
qed

lemma d_removeLast_liveness:
  assumes "d_inv l" "d_getLast l = Some p"
  shows "\<exists>x l'. d_removeLast l = (Inr x, l') \<and> x = d_element (d_store l ! p_node p) \<and>
     d_position_dead l' p \<and> d_others_live l l' p"
proof -
  from assms(2) obtain t where t: "d_tail l = Some t" "p = \<lparr>p_node = t, p_container = d_ident l\<rparr>"
    by (auto simp: d_getLast_def d_createPosition_def split: option.splits)
  have lv: "d_live (d_store l) t" using d_invD(3)[OF assms(1) t(1)] by simp
  from d_deleteNode_liveness[OF assms(1) lv t(2)] d_removeLast_ok[OF t(1)]
  show ?thesis by (cases "d_removeLast l") auto
qed

lemma d_delete_liveness:
  assumes "d_inv l" "d_validate l p = Inr a"
  shows "\<exists>x l'. d_delete l p = (Inr x, l') \<and> x = d_element (d_store l ! p_node p) \<and>
     d_position_dead l' p \<and> d_others_live l l' p"
proof -
  have lv: "d_live (d_store l) a" and p: "p = \<lparr>p_node = a, p_container = d_ident l\<rparr>"
    using assms(2) by (auto simp: d_validate_Inr)
  from d_deleteNode_liveness[OF assms(1) lv p] d_delete_ok[OF assms(2)]
  show ?thesis by (cases "d_delete l p") auto
qed

text \<open>
  C1: for every list reached by any sequence of operations, the element removed by
  \<^verbatim>\<open>removeFirst\<close>, \<^verbatim>\<open>removeLast\<close> or \<^verbatim>\<open>delete\<close> is the one at the position, its node is
  marked deprecated (\<^verbatim>\<open>isDeprecated\<close> holds) and the position fails validation with
  \<open>InvalidPosition\<close> from then on, whatever operations follow; every other position that
  was valid stays valid and \<^verbatim>\<open>replace\<close> on it succeeds, returning its element.
\<close>

theorem position_liveness:
  assumes "s_run (SinglyLinkedList i els) sops = Some ls"
    and "d_run (DoublyLinkedList j els') dops = Some ld"
  shows
    "(\<forall>p. s_getFirst ls = Some p \<longrightarrow>
        (\<exists>x l'. s_removeFirst ls = (Inr x, l') \<and> x = s_element (s_store ls ! p_node p) \<and>
           s_position_dead l' p \<and> s_others_live ls l' p)) \<and>
     (\<forall>p. d_getFirst ld = Some p \<longrightarrow>
        (\<exists>x l'. d_removeFirst ld = (Inr x, l') \<and> x = d_element (d_store ld ! p_node p) \<and>
           d_position_dead l' p \<and> d_others_live ld l' p)) \<and>
     (\<forall>p. d_getLast ld = Some p \<longrightarrow>
        (\<exists>x l'. d_removeLast ld = (Inr x, l') \<and> x = d_element (d_store ld ! p_node p) \<and>
           d_position_dead l' p \<and> d_others_live ld l' p)) \<and>
     (\<forall>p a. d_validate ld p = Inr a \<longrightarrow>
        (\<exists>x l'. d_delete ld p = (Inr x, l') \<and> x = d_element (d_store ld ! p_node p) \<and>
           d_position_dead l' p \<and> d_others_live ld l' p))"
proof -
  from s_reach_abs[OF assms(1)] obtain xs where xs: "s_abs ls xs" by blast
  note inv = d_reach_inv[OF assms(2)]
  show ?thesis
    using s_removeFirst_liveness[OF xs] d_removeFirst_liveness[OF inv]
      d_removeLast_liveness[OF inv] d_delete_liveness[OF inv]
    by blast
qed

text \<open>
  C2: when an operation of a list fails (\<^verbatim>\<open>addAfter\<close>, \<^verbatim>\<open>addBefore\<close>, \<^verbatim>\<open>delete\<close>,
  \<^verbatim>\<open>replace\<close>, \<^verbatim>\<open>getAfter\<close>, \<^verbatim>\<open>getBefore\<close> on an invalid position; \<^verbatim>\<open>removeFirst\<close>,
  \<^verbatim>\<open>removeLast\<close> on an empty list), the list it leaves behind is the list it was given:
  head, tail, size and every node are unchanged.
\<close>

theorem failed_call_changes_nothing:
  "(fst (s_addAfter ls p e) = Inl err \<longrightarrow> snd (s_addAfter ls p e) = ls) \<and>
   (fst (s_replace ls p e) = Inl err \<longrightarrow> snd (s_replace ls p e) = ls) \<and>
   (fst (s_getAfter ls p) = Inl err \<longrightarrow> snd (s_getAfter ls p) = ls) \<and>
   (fst (s_removeFirst ls) = Inl err \<longrightarrow> snd (s_removeFirst ls) = ls) \<and>
   (fst (d_addAfter ld p f) = Inl err \<longrightarrow> snd (d_addAfter ld p f) = ld) \<and>
   (fst (d_addBefore ld p f) = Inl err \<longrightarrow> snd (d_addBefore ld p f) = ld) \<and>
   (fst (d_delete ld p) = Inl err \<longrightarrow> snd (d_delete ld p) = ld) \<and>
   (fst (d_replace ld p f) = Inl err \<longrightarrow> snd (d_replace ld p f) = ld) \<and>
   (fst (d_getAfter ld p) = Inl err \<longrightarrow> snd (d_getAfter ld p) = ld) \<and>
   (fst (d_getBefore ld p) = Inl err \<longrightarrow> snd (d_getBefore ld p) = ld) \<and>
   (fst (d_removeFirst ld) = Inl err \<longrightarrow> snd (d_removeFirst ld) = ld) \<and>
   (fst (d_removeLast ld) = Inl err \<longrightarrow> snd (d_removeLast ld) = ld)"
proof (intro conjI impI)
  show "snd (s_addAfter ls p e) = ls" if "fst (s_addAfter ls p e) = Inl err"
    using that by (cases "s_validate ls p") (simp_all add: s_addAfter_fail s_addAfter_fields)
  show "snd (s_replace ls p e) = ls" if "fst (s_replace ls p e) = Inl err"
    using that by (cases "s_validate ls p") (simp_all add: s_replace_fail s_replace_fields)
  show "snd (s_getAfter ls p) = ls" if "fst (s_getAfter ls p) = Inl err"
    by (simp add: s_getAfter_def split: sum.splits)
  show "snd (s_removeFirst ls) = ls" if "fst (s_removeFirst ls) = Inl err"
    using that by (cases "s_head ls") (simp_all add: s_removeFirst_def Let_def)
  show "snd (d_addAfter ld p f) = ld" if "fst (d_addAfter ld p f) = Inl err"
    using that by (cases "d_validate ld p") (simp_all add: d_fail d_addAfter_ok)
  show "snd (d_addBefore ld p f) = ld" if "fst (d_addBefore ld p f) = Inl err"
    using that by (cases "d_validate ld p") (simp_all add: d_fail d_addBefore_ok)
  show "snd (d_delete ld p) = ld" if "fst (d_delete ld p) = Inl err"
    using that by (cases "d_validate ld p") (simp_all add: d_fail d_delete_ok)
  show "snd (d_replace ld p f) = ld" if "fst (d_replace ld p f) = Inl err"
    using that by (cases "d_validate ld p") (simp_all add: d_fail d_replace_fields)
  show "snd (d_getAfter ld p) = ld" if "fst (d_getAfter ld p) = Inl err"
    by (simp add: d_getAfter_def split: sum.splits)
  show "snd (d_getBefore ld p) = ld" if "fst (d_getBefore ld p) = Inl err"
    by (simp add: d_getBefore_def split: sum.splits)
  show "snd (d_removeFirst ld) = ld" if "fst (d_removeFirst ld) = Inl err"
    using that by (cases "d_head ld") (simp_all add: d_fail d_removeFirst_ok)
  show "snd (d_removeLast ld) = ld" if "fst (d_removeLast ld) = Inl err"
    using that by (cases "d_tail ld") (simp_all add: d_fail d_removeLast_ok)
qed

text \<open>
  C3: after any finite sequence of \<^verbatim>\<open>addFirst\<close>, \<^verbatim>\<open>addLast\<close>, \<^verbatim>\<open>addAfter\<close>,
  \<^verbatim>\<open>addBefore\<close>, \<^verbatim>\<open>removeFirst\<close>, \<^verbatim>\<open>removeLast\<close> and \<^verbatim>\<open>delete\<close> calls on a new
  empty list (failing calls included), the sequence runs to its end and the size of the
  list is the number of non-deprecated nodes met by following \<^verbatim>\<open>next\<close> from the head.
\<close>

theorem size_counts_live_nodes:
  assumes "\<forall>op\<in>set sops. s_counting op" and "\<forall>op\<in>set dops. d_counting op"
  shows
    "(\<exists>l xs. s_run (SinglyLinkedList i []) sops = Some l \<and>
        s_walk (s_store l) (s_head l) = Some xs \<and>
        s_size l = int (length (filter (\<lambda>a. \<not> s_isDeprecated l a) xs))) \<and>
     (\<exists>l xs. d_run (DoublyLinkedList j []) dops = Some l \<and>
        d_walk (d_store l) (d_head l) = Some xs \<and>
        d_size l = int (length (filter (\<lambda>a. \<not> d_isDeprecated l a) xs)))"
proof
  have "S_clear True \<notin> set sops" using assms(1) by auto
  from s_strict_run[OF _ this] s_strict_new[of i "[]"] obtain l xs
    where "s_run (SinglyLinkedList i []) sops = Some l" "s_strict l xs" by blast
  then show "\<exists>l xs. s_run (SinglyLinkedList i []) sops = Some l \<and>
        s_walk (s_store l) (s_head l) = Some xs \<and>
        s_size l = int (length (filter (\<lambda>a. \<not> s_isDeprecated l a) xs))"
    using s_strict_count by blast
next
  have "D_clear True \<notin> set dops" using assms(2) by auto
  from d_strict_run[OF _ this] d_strict_new[of j "[]"] obtain l xs
    where "d_run (DoublyLinkedList j []) dops = Some l" "d_strict l xs" by blast
  then show "\<exists>l xs. d_run (DoublyLinkedList j []) dops = Some l \<and>
        d_walk (d_store l) (d_head l) = Some xs \<and>
        d_size l = int (length (filter (\<lambda>a. \<not> d_isDeprecated l a) xs))"
    using d_strict_count by blast
qed

text \<open>
  C8: constructing a list, singly or doubly linked, from an array and iterating it yields
  exactly the elements of the array in their order (the empty sequence for the empty
  array).
\<close>

theorem iteration_round_trip:
  "s_iterator (SinglyLinkedList i arr) = Some arr \<and>
   d_iterator (DoublyLinkedList j arr) = Some arr"
  by (simp add: s_iterator_new d_iterator_new)

lemma d_inv_symmetry:
  assumes "d_inv l" "a < length (d_store l)" "\<not> d_isDeprecated l a"
  shows "d_next (d_store l ! a) = Some b \<Longrightarrow>
           b < length (d_store l) \<and> \<not> d_isDeprecated l b \<and> d_prev (d_store l ! b) = Some a"
    "d_prev (d_store l ! a) = Some b \<Longrightarrow>
           b < length (d_store l) \<and> \<not> d_isDeprecated l b \<and> d_next (d_store l ! b) = Some a"
proof -
  have lv: "d_live (d_store l) a" using assms(2,3) by (simp add: d_live_def d_isDeprecated_def)
  from d_invD(1)[OF assms(1) lv] obtain xs where xs: "d_chain (d_store l) xs" "a \<in> set xs"
    by blast
  then obtain ys zs where s: "xs = ys @ a # zs" by (auto simp: in_set_conv_decomp)
  note m = d_seg_mid[OF d_chainD(2)[OF xs(1)[unfolded s]]]
  show "b < length (d_store l) \<and> \<not> d_isDeprecated l b \<and> d_prev (d_store l ! b) = Some a"
    if "d_next (d_store l ! a) = Some b"
  proof -
    from that m(3) obtain zs' where zs: "zs = b # zs'" by (cases zs) auto
    have "d_live (d_store l) b" using d_chain_live[OF xs(1), of b] s zs by simp
    moreover have "d_prev (d_store l ! b) = Some a" using m(5) zs by simp
    ultimately show ?thesis by (simp add: d_live_def d_isDeprecated_def)
  qed
  show "b < length (d_store l) \<and> \<not> d_isDeprecated l b \<and> d_next (d_store l ! b) = Some a"
    if "d_prev (d_store l ! a) = Some b"
  proof -
    from that m(2) obtain ys' where ys: "ys = ys' @ [b]" by (cases ys rule: rev_cases) auto
    have "d_live (d_store l) b" using d_chain_live[OF xs(1), of b] s ys by simp
    moreover have "d_next (d_store l ! b) = Some a" using m(4) ys by (simp add: d_seg_snoc)
    ultimately show ?thesis by (simp add: d_live_def d_isDeprecated_def)
  qed
qed

lemma d_inv_walk_links:
  assumes "d_inv l"
  shows "\<exists>xs. d_walk (d_store l) (d_head l) = Some xs \<and>
     (\<forall>a\<in>set xs. a < length (d_store l) \<and> \<not> d_isDeprecated l a) \<and>
     (\<forall>a\<in>set xs. d_head l \<noteq> Some a \<longrightarrow>
        (\<exists>b\<in>set xs. d_prev (d_store l ! a) = Some b \<and> d_next (d_store l ! b) = Some a))"
proof -
  from d_inv_walk[OF assms] obtain xs
    where xs: "d_walk (d_store l) (d_head l) = Some xs" "d_chain (d_store l) xs"
      "d_head l = first_of xs None" by blast
  have 1: "a < length (d_store l) \<and> \<not> d_isDeprecated l a" if "a \<in> set xs" for a
    using d_chain_live[OF xs(2) that] by (simp add: d_live_def d_isDeprecated_def)
  have 2: "\<exists>b\<in>set xs. d_prev (d_store l ! a) = Some b \<and> d_next (d_store l ! b) = Some a"
    if "a \<in> set xs" "d_head l \<noteq> Some a" for a
  proof -
    from that(1) obtain ys zs where s: "xs = ys @ a # zs" by (auto simp: in_set_conv_decomp)
    have "ys \<noteq> []" using that(2) xs(3) s by auto
    then obtain ys' b where ys: "ys = ys' @ [b]" by (cases ys rule: rev_cases) auto
    note m = d_seg_mid[OF d_chainD(2)[OF xs(2)[unfolded s]]]
    have "d_prev (d_store l ! a) = Some b" using m(2) ys by simp
    moreover have "d_next (d_store l ! b) = Some a" using m(4) ys by (simp add: d_seg_snoc)
    ultimately show ?thesis using s ys by auto
  qed
  show ?thesis using xs(1) 1 2 by blast
qed

text \<open>
  C6: in every doubly linked list reached by any sequence of its public operations, the
  links of every non-deprecated node are mirrored: \<^verbatim>\<open>node.next.prev == node\<close> and
  \<^verbatim>\<open>node.prev.next == node\<close>, the neighbour being a non-deprecated node too. The nodes met
  from the head are such nodes, and each of them but the head has a predecessor among
  them whose \<^verbatim>\<open>next\<close> is the node.
\<close>

theorem doubly_linked_symmetry:
  assumes "d_run (DoublyLinkedList j els) dops = Some l"
  shows
    "(\<forall>a b. a < length (d_store l) \<and> \<not> d_isDeprecated l a \<and> d_next (d_store l ! a) = Some b \<longrightarrow>
        b < length (d_store l) \<and> \<not> d_isDeprecated l b \<and> d_prev (d_store l ! b) = Some a) \<and>
     (\<forall>a b. a < length (d_store l) \<and> \<not> d_isDeprecated l a \<and> d_prev (d_store l ! a) = Some b \<longrightarrow>
        b < length (d_store l) \<and> \<not> d_isDeprecated l b \<and> d_next (d_store l ! b) = Some a) \<and>
     (\<exists>xs. d_walk (d_store l) (d_head l) = Some xs \<and>
        (\<forall>a\<in>set xs. a < length (d_store l) \<and> \<not> d_isDeprecated l a) \<and>
        (\<forall>a\<in>set xs. d_head l \<noteq> Some a \<longrightarrow>
           (\<exists>b\<in>set xs. d_prev (d_store l ! a) = Some b \<and> d_next (d_store l ! b) = Some a)))"
proof -
  note inv = d_reach_inv[OF assms]
  show ?thesis
    using d_inv_symmetry[OF inv] d_inv_walk_links[OF inv] by blast
qed

lemma s_clear_instant:
  "s_clear l True = Some (l\<lparr>s_tail := None, s_head := None, s_size := 0\<rparr>)"
  "s_validate (l\<lparr>s_tail := None, s_head := None, s_size := 0\<rparr>) p = s_validate l p"
  "s_isDeprecated (l\<lparr>s_tail := None, s_head := None, s_size := 0\<rparr>) a = s_isDeprecated l a"
  by (simp_all add: s_clear_def s_validate_def s_isDeprecated_def)

lemma d_clear_instant:
  "d_clear l True = Some (l\<lparr>d_tail := None, d_head := None, d_size := 0\<rparr>)"
  "d_validate (l\<lparr>d_tail := None, d_head := None, d_size := 0\<rparr>) p = d_validate l p"
  "d_isDeprecated (l\<lparr>d_tail := None, d_head := None, d_size := 0\<rparr>) a = d_isDeprecated l a"
  by (simp_all add: d_clear_def d_validate_def d_isDeprecated_def)

lemma s_clear_walked:
  assumes "s_abs l xs"
  shows "\<exists>l'. s_walk (s_store l) (s_head l) = Some xs \<and>
     s_clear l False = Some l' \<and> s_size l' = 0 \<and> s_head l' = None \<and> s_tail l' = None \<and>
     (\<forall>a\<in>set xs. s_isDeprecated l' a) \<and>
     (\<forall>p. p_node p \<in> set xs \<longrightarrow> s_position_dead l' p) \<and>
     (\<forall>a\<in>set xs. \<not> s_isDeprecated l a)"
proof -
  note d = s_absD[OF assms]
  from s_clear_fields[OF assms, of False] obtain l'
    where l': "s_clear l False = Some l'" "s_store l' = s_mark (s_store l) xs"
      "s_head l' = None" "s_tail l' = None" "s_size l' = 0" by auto
  have a': "s_abs l' []" using l'(3,4) by (simp add: s_abs_Nil)
  have dep: "s_isDeprecated l' a" if "a \<in> set xs" for a
    using s_mark_in[OF that, of "s_store l"] d(5) by (simp add: s_isDeprecated_def l'(2))
  have dead: "s_position_dead l' p" if "p_node p \<in> set xs" for p
    using dep[OF that] d(5)[OF that] by (intro s_dead_forever[OF a']) (simp_all add: l'(2))
  have live: "\<not> s_isDeprecated l a" if "a \<in> set xs" for a
    using s_seg_live[OF d(2) d(1) that] by (simp add: s_isDeprecated_def)
  show ?thesis using s_abs_walk[OF assms] l' dep dead live by blast
qed

lemma s_clear_strict_all_invalid:
  assumes "s_strict l xs" "s_clear l False = Some l'"
  shows "s_validate l' p = Inl InvalidPosition"
proof -
  from s_strict_clear[OF assms(1)] assms(2)
  have "\<forall>a<length (s_store l'). s_next (s_store l' ! a) = Some a" by auto
  then show ?thesis by (simp add: s_validate_def s_isDeprecated_def)
qed

lemma d_clear_walked:
  assumes "d_inv l"
  shows "\<exists>xs l'. d_walk (d_store l) (d_head l) = Some xs \<and>
     d_clear l False = Some l' \<and> d_size l' = 0 \<and> d_head l' = None \<and> d_tail l' = None \<and>
     (\<forall>a\<in>set xs. d_isDeprecated l' a) \<and>
     (\<forall>p. p_node p \<in> set xs \<longrightarrow> d_position_dead l' p) \<and>
     (\<forall>a\<in>set xs. \<not> d_isDeprecated l a)"
proof -
  from d_inv_walk[OF assms] obtain xs
    where xs: "d_walk (d_store l) (d_head l) = Some xs" "d_chain (d_store l) xs"
      "d_head l = first_of xs None" by blast
  note c = d_chainD[OF xs(2)]
  from d_clear_fields[OF xs(2,3), of False] obtain l'
    where l': "d_clear l False = Some l'" "d_store l' = d_mark (d_store l) xs"
      "d_head l' = None" "d_tail l' = None" "d_size l' = 0" by auto
  have i': "d_inv l'" using d_inv_clear[OF assms, of False] l'(1) by auto
  have dep: "d_isDeprecated l' a" if "a \<in> set xs" for a
    using d_mark_in[OF that, of "d_store l"] c(3) by (simp add: d_isDeprecated_def l'(2))
  have dead: "d_position_dead l' p" if "p_node p \<in> set xs" for p
    using dep[OF that] c(3)[OF that] by (intro d_dead_forever[OF i']) (simp_all add: l'(2))
  have live: "\<not> d_isDeprecated l a" if "a \<in> set xs" for a
    using d_chain_live[OF xs(2) that] by (simp add: d_isDeprecated_def d_live_def)
  show ?thesis using xs(1) l' dep dead live by blast
qed

lemma d_clear_strict_all_invalid:
  assumes "d_strict l xs" "d_clear l False = Some l'"
  shows "d_validate l' p = Inl InvalidPosition"
proof -
  from d_strict_step[OF assms(1), of "D_clear False"] assms(2) obtain xs'
    where s: "d_strict l' xs'" by auto
  note d = d_strictD[OF s]
  from d_clear_fields[OF d_absD(1,2)[OF d_strictD(1)[OF assms(1)]], of False] assms(2)
  have "d_head l' = None" by auto
  then have "xs' = []" using d_absD(2)[OF d(1)] by (simp add: first_of_None)
  then have "\<not> d_live (d_store l') (p_node p)" using d(3)[of "p_node p"] by auto
  then show ?thesis by (rule d_validate_dead)
qed

lemma s_clear_strict_all_dead:
  assumes "s_strict l xs" "s_clear l False = Some l'" "p_node p < length (s_store l)"
  shows "s_position_dead l' p"
proof -
  from s_clear_fields[OF s_strictD(1)[OF assms(1)], of False] assms(2)
  have f: "s_store l' = s_mark (s_store l) xs" "s_head l' = None" "s_tail l' = None" by auto
  have a': "s_abs l' []" using f(2,3) by (simp add: s_abs_Nil)
  from s_strict_clear[OF assms(1)] assms(2)
  have all: "\<forall>a<length (s_store l'). s_next (s_store l' ! a) = Some a" by auto
  have len: "p_node p < length (s_store l')" using assms(3) by (simp add: f(1))
  have dep: "s_isDeprecated l' (p_node p)" using all len by (simp add: s_isDeprecated_def)
  show ?thesis by (rule s_dead_forever[OF a' len dep])
qed

lemma d_clear_strict_all_dead:
  assumes "d_strict l xs" "d_clear l False = Some l'" "p_node p < length (d_store l)"
  shows "d_position_dead l' p"
proof -
  from d_strict_step[OF assms(1), of "D_clear False"] assms(2) obtain xs'
    where s: "d_strict l' xs'" by auto
  note d = d_strictD[OF s]
  from d_clear_fields[OF d_absD(1,2)[OF d_strictD(1)[OF assms(1)]], of False] assms(2)
  have f: "d_store l' = d_mark (d_store l) xs" "d_head l' = None" by auto
  from f(2) have "xs' = []" using d_absD(2)[OF d(1)] by (simp add: first_of_None)
  then have nl: "\<not> d_live (d_store l') (p_node p)" using d(3)[of "p_node p"] by auto
  have len: "p_node p < length (d_store l')" using assms(3) by (simp add: f(1))
  have dep: "d_isDeprecated l' (p_node p)" using nl len by (simp add: d_isDeprecated_def d_live_def)
  show ?thesis by (rule d_dead_forever[OF d_strict_inv[OF s] len dep])
qed

text \<open>
  C5, as the code has it. On every list reached by any sequence of calls, \<^verbatim>\<open>clear(false)\<close>
  returns and marks every node reachable from the old head deprecated, and every position
  on such a node fails validation after the call and after every further sequence of
  calls. On a list that was never cleared with \<^verbatim>\<open>instant = true\<close> every position fails
  validation once \<^verbatim>\<open>clear(false)\<close> has returned, and every position on a node the list had
  allocated by then does so after every further sequence of calls as well. \<^verbatim>\<open>clear(true)\<close>
  only resets head, tail and size: the nodes that were reachable stay non-deprecated and
  every position validates as before. In both modes the list is empty afterwards: size 0,
  no head, no tail.
\<close>

theorem clear_modes:
  assumes "s_run (SinglyLinkedList i els) sops = Some ls"
    and "d_run (DoublyLinkedList j els') dops = Some ld"
  shows
    "(\<exists>xs l'. s_walk (s_store ls) (s_head ls) = Some xs \<and>
        s_clear ls False = Some l' \<and> s_size l' = 0 \<and> s_head l' = None \<and> s_tail l' = None \<and>
        (\<forall>a\<in>set xs. s_isDeprecated l' a) \<and>
        (\<forall>p. p_node p \<in> set xs \<longrightarrow> s_position_dead l' p) \<and>
        (S_clear True \<notin> set sops \<longrightarrow>
           (\<forall>p. s_validate l' p = Inl InvalidPosition) \<and>
           (\<forall>p. p_node p < length (s_store ls) \<longrightarrow> s_position_dead l' p)) \<and>
        s_clear ls True = Some (ls\<lparr>s_tail := None, s_head := None, s_size := 0\<rparr>) \<and>
        (\<forall>a\<in>set xs. \<not> s_isDeprecated (ls\<lparr>s_tail := None, s_head := None, s_size := 0\<rparr>) a) \<and>
        (\<forall>p. s_validate (ls\<lparr>s_tail := None, s_head := None, s_size := 0\<rparr>) p = s_validate ls p)) \<and>
     (\<exists>xs l'. d_walk (d_store ld) (d_head ld) = Some xs \<and>
        d_clear ld False = Some l' \<and> d_size l' = 0 \<and> d_head l' = None \<and> d_tail l' = None \<and>
        (\<forall>a\<in>set xs. d_isDeprecated l' a) \<and>
        (\<forall>p. p_node p \<in> set xs \<longrightarrow> d_position_dead l' p) \<and>
        (D_clear True \<notin> set dops \<longrightarrow>
           (\<forall>p. d_validate l' p = Inl InvalidPosition) \<and>
           (\<forall>p. p_node p < length (d_store ld) \<longrightarrow> d_position_dead l' p)) \<and>
        d_clear ld True = Some (ld\<lparr>d_tail := None, d_head := None, d_size := 0\<rparr>) \<and>
        (\<forall>a\<in>set xs. \<not> d_isDeprecated (ld\<lparr>d_tail := None, d_head := None, d_size := 0\<rparr>) a) \<and>
        (\<forall>p. d_validate (ld\<lparr>d_tail := None, d_head := None, d_size := 0\<rparr>) p = d_validate ld p))"
proof
  from s_reach_abs[OF assms(1)] obtain xs where xs: "s_abs ls xs" by blast
  from s_clear_walked[OF xs] obtain l'
    where l': "s_walk (s_store ls) (s_head ls) = Some xs"
      "s_clear ls False = Some l'" "s_size l' = 0" "s_head l' = None" "s_tail l' = None"
      "\<forall>a\<in>set xs. s_isDeprecated l' a"
      "\<forall>p. p_node p \<in> set xs \<longrightarrow> s_position_dead l' p"
      "\<forall>a\<in>set xs. \<not> s_isDeprecated ls a" by blast
  have strict: "(\<forall>p. s_validate l' p = Inl InvalidPosition) \<and>
      (\<forall>p. p_node p < length (s_store ls) \<longrightarrow> s_position_dead l' p)"
    if "S_clear True \<notin> set sops"
    using s_reach_strict[OF assms(1) that] s_clear_strict_all_invalid[OF _ l'(2)]
      s_clear_strict_all_dead[OF _ l'(2)] by blast
  show "\<exists>xs l'. s_walk (s_store ls) (s_head ls) = Some xs \<and>
        s_clear ls False = Some l' \<and> s_size l' = 0 \<and> s_head l' = None \<and> s_tail l' = None \<and>
        (\<forall>a\<in>set xs. s_isDeprecated l' a) \<and>
        (\<forall>p. p_node p \<in> set xs \<longrightarrow> s_position_dead l' p) \<and>
        (S_clear True \<notin> set sops \<longrightarrow>
           (\<forall>p. s_validate l' p = Inl InvalidPosition) \<and>
           (\<forall>p. p_node p < length (s_store ls) \<longrightarrow> s_position_dead l' p)) \<and>
        s_clear ls True = Some (ls\<lparr>s_tail := None, s_head := None, s_size := 0\<rparr>) \<and>
        (\<forall>a\<in>set xs. \<not> s_isDeprecated (ls\<lparr>s_tail := None, s_head := None, s_size := 0\<rparr>) a) \<and>
        (\<forall>p. s_validate (ls\<lparr>s_tail := None, s_head := None, s_size := 0\<rparr>) p = s_validate ls p)"
    using l' strict by (simp only: s_clear_instant) blast
next
  note inv = d_reach_inv[OF assms(2)]
  from d_clear_walked[OF inv] obtain xs l'
    where l': "d_walk (d_store ld) (d_head ld) = Some xs"
      "d_clear ld False = Some l'" "d_size l' = 0" "d_head l' = None" "d_tail l' = None"
      "\<forall>a\<in>set xs. d_isDeprecated l' a"
      "\<forall>p. p_node p \<in> set xs \<longrightarrow> d_position_dead l' p"
      "\<forall>a\<in>set xs. \<not> d_isDeprecated ld a" by blast
  have strict: "(\<forall>p. d_validate l' p = Inl InvalidPosition) \<and>
      (\<forall>p. p_node p < length (d_store ld) \<longrightarrow> d_position_dead l' p)"
    if "D_clear True \<notin> set dops"
    using d_reach_strict[OF assms(2) that] d_clear_strict_all_invalid[OF _ l'(2)]
      d_clear_strict_all_dead[OF _ l'(2)] by blast
  show "\<exists>xs l'. d_walk (d_store ld) (d_head ld) = Some xs \<and>
        d_clear ld False = Some l' \<and> d_size l' = 0 \<and> d_head l' = None \<and> d_tail l' = None \<and>
        (\<forall>a\<in>set xs. d_isDeprecated l' a) \<and>
        (\<forall>p. p_node p \<in> set xs \<longrightarrow> d_position_dead l' p) \<and>
        (D_clear True \<notin> set dops \<longrightarrow>
           (\<forall>p. d_validate l' p = Inl InvalidPosition) \<and>
           (\<forall>p. p_node p < length (d_store ld) \<longrightarrow> d_position_dead l' p)) \<and>
        d_clear ld True = Some (ld\<lparr>d_tail := None, d_head := None, d_size := 0\<rparr>) \<and>
        (\<forall>a\<in>set xs. \<not> d_isDeprecated (ld\<lparr>d_tail := None, d_head := None, d_size := 0\<rparr>) a) \<and>
        (\<forall>p. d_validate (ld\<lparr>d_tail := None, d_head := None, d_size := 0\<rparr>) p = d_validate ld p)"
    using l' strict by (simp only: d_clear_instant) blast
qed

text \<open>
  Lists the claim fails on, one of each variant: the list \<open>[1]\<close>, its first position kept,
  \<^verbatim>\<open>clear(true)\<close>, \<^verbatim>\<open>addFirst(2)\<close>. The kept position still validates there, on a node
  that is no longer reachable from the head. \<^verbatim>\<open>clear(false)\<close> then walks the node of the
  element 2 only; the kept position validates after it as before, and \<^verbatim>\<open>replace\<close>
  returns its element.
\<close>

theorem clear_modes_counterexample:
  "s_getFirst (SinglyLinkedList 0 [1::int]) = Some \<lparr>p_node = 0, p_container = 0\<rparr> \<and>
   s_run (SinglyLinkedList 0 [1::int]) [S_clear True, S_addFirst 2] =
     Some \<lparr>s_store = [\<lparr>s_element = 1, s_next = None\<rparr>, \<lparr>s_element = 2, s_next = None\<rparr>],
           s_head = Some 1, s_tail = Some 1, s_size = 1, s_ident = 0\<rparr> \<and>
   s_validate
     \<lparr>s_store = [\<lparr>s_element = 1::int, s_next = None\<rparr>, \<lparr>s_element = 2, s_next = None\<rparr>],
      s_head = Some 1, s_tail = Some 1, s_size = 1, s_ident = 0\<rparr>
     \<lparr>p_node = 0, p_container = 0\<rparr> = Inr 0 \<and>
   s_clear
     \<lparr>s_store = [\<lparr>s_element = 1::int, s_next = None\<rparr>, \<lparr>s_element = 2, s_next = None\<rparr>],
      s_head = Some 1, s_tail = Some 1, s_size = 1, s_ident = 0\<rparr> False =
     Some \<lparr>s_store = [\<lparr>s_element = 1, s_next = None\<rparr>, \<lparr>s_element = 2, s_next = Some 1\<rparr>],
           s_head = None, s_tail = None, s_size = 0, s_ident = 0\<rparr> \<and>
   s_validate
     \<lparr>s_store = [\<lparr>s_element = 1::int, s_next = None\<rparr>, \<lparr>s_element = 2, s_next = Some 1\<rparr>],
      s_head = None, s_tail = None, s_size = 0, s_ident = 0\<rparr>
     \<lparr>p_node = 0, p_container = 0\<rparr> = Inr 0 \<and>
   fst (s_replace
     \<lparr>s_store = [\<lparr>s_element = 1::int, s_next = None\<rparr>, \<lparr>s_element = 2, s_next = Some 1\<rparr>],
      s_head = None, s_tail = None, s_size = 0, s_ident = 0\<rparr>
     \<lparr>p_node = 0, p_container = 0\<rparr> 5) = Inr 1 \<and>
   d_getFirst (DoublyLinkedList 0 [1::int]) = Some \<lparr>p_node = 0, p_container = 0\<rparr> \<and>
   d_run (DoublyLinkedList 0 [1::int]) [D_clear True, D_addFirst 2] =
     Some \<lparr>d_store = [\<lparr>d_element = 1, d_next = None, d_prev = None\<rparr>,
                      \<lparr>d_element = 2, d_next = None, d_prev = None\<rparr>],
           d_head = Some 1, d_tail = Some 1, d_size = 1, d_ident = 0\<rparr> \<and>
   d_validate
     \<lparr>d_store = [\<lparr>d_element = 1::int, d_next = None, d_prev = None\<rparr>,
                 \<lparr>d_element = 2, d_next = None, d_prev = None\<rparr>],
      d_head = Some 1, d_tail = Some 1, d_size = 1, d_ident = 0\<rparr>
     \<lparr>p_node = 0, p_container = 0\<rparr> = Inr 0 \<and>
   d_clear
     \<lparr>d_store = [\<lparr>d_element = 1::int, d_next = None, d_prev = None\<rparr>,
                 \<lparr>d_element = 2, d_next = None, d_prev = None\<rparr>],
      d_head = Some 1, d_tail = Some 1, d_size = 1, d_ident = 0\<rparr> False =
     Some \<lparr>d_store = [\<lparr>d_element = 1, d_next = None, d_prev = None\<rparr>,
                      \<lparr>d_element = 2, d_next = Some 1, d_prev = None\<rparr>],
           d_head = None, d_tail = None, d_size = 0, d_ident = 0\<rparr> \<and>
   d_validate
     \<lparr>d_store = [\<lparr>d_element = 1::int, d_next = None, d_prev = None\<rparr>,
                 \<lparr>d_element = 2, d_next = Some 1, d_prev = None\<rparr>],
      d_head = None, d_tail = None, d_size = 0, d_ident = 0\<rparr>
     \<lparr>p_node = 0, p_container = 0\<rparr> = Inr 0 \<and>
   fst (d_replace
     \<lparr>d_store = [\<lparr>d_element = 1::int, d_next = None, d_prev = None\<rparr>,
                 \<lparr>d_element = 2, d_next = Some 1, d_prev = None\<rparr>],
      d_head = None, d_tail = None, d_size = 0, d_ident = 0\<rparr>
     \<lparr>p_node = 0, p_container = 0\<rparr> 5) = Inr 1"
proof (intro conjI)
  show "s_getFirst (SinglyLinkedList 0 [1::int]) = Some \<lparr>p_node = 0, p_container = 0\<rparr>"
    by (simp add: SinglyLinkedList_def s_empty_def s_addLast_def Let_def s_getFirst_def
        s_createPosition_def)
  show "s_run (SinglyLinkedList 0 [1::int]) [S_clear True, S_addFirst 2] =
     Some \<lparr>s_store = [\<lparr>s_element = 1, s_next = None\<rparr>, \<lparr>s_element = 2, s_next = None\<rparr>],
           s_head = Some 1, s_tail = Some 1, s_size = 1, s_ident = 0\<rparr>"
    by (simp add: SinglyLinkedList_def s_empty_def s_addLast_def s_addFirst_def Let_def
        s_clear_def s_createPosition_def)
  show "s_validate
     \<lparr>s_store = [\<lparr>s_element = 1::int, s_next = None\<rparr>, \<lparr>s_element = 2, s_next = None\<rparr>],
      s_head = Some 1, s_tail = Some 1, s_size = 1, s_ident = 0\<rparr>
     \<lparr>p_node = 0, p_container = 0\<rparr> = Inr 0"
    by (simp add: s_validate_def s_isDeprecated_def)
  show "s_clear
     \<lparr>s_store = [\<lparr>s_element = 1::int, s_next = None\<rparr>, \<lparr>s_element = 2, s_next = None\<rparr>],
      s_head = Some 1, s_tail = Some 1, s_size = 1, s_ident = 0\<rparr> False =
     Some \<lparr>s_store = [\<lparr>s_element = 1, s_next = None\<rparr>, \<lparr>s_element = 2, s_next = Some 1\<rparr>],
           s_head = None, s_tail = None, s_size = 0, s_ident = 0\<rparr>"
    by (simp add: s_clear_def s_clear_loop_Some)
  show "s_validate
     \<lparr>s_store = [\<lparr>s_element = 1::int, s_next = None\<rparr>, \<lparr>s_element = 2, s_next = Some 1\<rparr>],
      s_head = None, s_tail = None, s_size = 0, s_ident = 0\<rparr>
     \<lparr>p_node = 0, p_container = 0\<rparr> = Inr 0"
    by (simp add: s_validate_def s_isDeprecated_def)
  show "fst (s_replace
     \<lparr>s_store = [\<lparr>s_element = 1::int, s_next = None\<rparr>, \<lparr>s_element = 2, s_next = Some 1\<rparr>],
      s_head = None, s_tail = None, s_size = 0, s_ident = 0\<rparr>
     \<lparr>p_node = 0, p_container = 0\<rparr> 5) = Inr 1"
    by (simp add: s_replace_def s_validate_def s_isDeprecated_def Let_def)
  show "d_getFirst (DoublyLinkedList 0 [1::int]) = Some \<lparr>p_node = 0, p_container = 0\<rparr>"
    by (simp add: DoublyLinkedList_def d_empty_def d_addLast_def d_insertBetween_def Let_def
        d_getFirst_def d_createPosition_def)
  show "d_run (DoublyLinkedList 0 [1::int]) [D_clear True, D_addFirst 2] =
     Some \<lparr>d_store = [\<lparr>d_element = 1, d_next = None, d_prev = None\<rparr>,
                      \<lparr>d_element = 2, d_next = None, d_prev = None\<rparr>],
           d_head = Some 1, d_tail = Some 1, d_size = 1, d_ident = 0\<rparr>"
    by (simp add: DoublyLinkedList_def d_empty_def d_addLast_def d_addFirst_def
        d_insertBetween_def Let_def d_clear_def)
  show "d_validate
     \<lparr>d_store = [\<lparr>d_element = 1::int, d_next = None, d_prev = None\<rparr>,
                 \<lparr>d_element = 2, d_next = None, d_prev = None\<rparr>],
      d_head = Some 1, d_tail = Some 1, d_size = 1, d_ident = 0\<rparr>
     \<lparr>p_node = 0, p_container = 0\<rparr> = Inr 0"
    by (simp add: d_validate_def d_isDeprecated_def)
  show "d_clear
     \<lparr>d_store = [\<lparr>d_element = 1::int, d_next = None, d_prev = None\<rparr>,
                 \<lparr>d_element = 2, d_next = None, d_prev = None\<rparr>],
      d_head = Some 1, d_tail = Some 1, d_size = 1, d_ident = 0\<rparr> False =
     Some \<lparr>d_store = [\<lparr>d_element = 1, d_next = None, d_prev = None\<rparr>,
                      \<lparr>d_element = 2, d_next = Some 1, d_prev = None\<rparr>],
           d_head = None, d_tail = None, d_size = 0, d_ident = 0\<rparr>"
    by (simp add: d_clear_def d_clear_loop_Some)
  show "d_validate
     \<lparr>d_store = [\<lparr>d_element = 1::int, d_next = None, d_prev = None\<rparr>,
                 \<lparr>d_element = 2, d_next = Some 1, d_prev = None\<rparr>],
      d_head = None, d_tail = None, d_size = 0, d_ident = 0\<rparr>
     \<lparr>p_node = 0, p_container = 0\<rparr> = Inr 0"
    by (simp add: d_validate_def d_isDeprecated_def)
  show "fst (d_replace
     \<lparr>d_store = [\<lparr>d_element = 1::int, d_next = None, d_prev = None\<rparr>,
                 \<lparr>d_element = 2, d_next = Some 1, d_prev = None\<rparr>],
      d_head = None, d_tail = None, d_size = 0, d_ident = 0\<rparr>
     \<lparr>p_node = 0, p_container = 0\<rparr> 5) = Inr 1"
    by (simp add: d_replace_def d_validate_def d_isDeprecated_def Let_def)
qed

lemma s_insertions_keep_tail:
  assumes "s_abs l xs"
  shows "s_tail_is_last l" "s_tail_is_last (snd (s_addFirst l e))"
    "s_tail_is_last (snd (s_addLast l e))" "s_tail_is_last (snd (s_addAfter l p e))"
proof -
  show "s_tail_is_last l" by (rule s_abs_tail_is_last[OF assms])
  show "s_tail_is_last (snd (s_addFirst l e))"
    by (rule s_abs_tail_is_last[OF s_abs_addFirst[OF assms]])
  show "s_tail_is_last (snd (s_addLast l e))"
    by (rule s_abs_tail_is_last[OF s_abs_addLast[OF assms]])
  from s_abs_step[OF assms, of "S_addAfter p e"]
  show "s_tail_is_last (snd (s_addAfter l p e))" using s_abs_tail_is_last by auto
qed

lemma d_insertions_keep_tail:
  assumes "d_inv l" "d_walk (d_store l) (d_head l) = Some xs" "d_tail l = last_of None xs"
  shows "d_tail_is_last (snd (d_addFirst l e))" "d_tail_is_last (snd (d_addLast l e))"
    "d_validate l p = Inr a \<Longrightarrow> a \<in> set xs \<Longrightarrow> d_tail_is_last (snd (d_addAfter l p e))"
    "d_validate l p = Inr a \<Longrightarrow> a \<in> set xs \<Longrightarrow> d_tail_is_last (snd (d_addBefore l p e))"
proof -
  note ab = d_inv_walk_abs[OF assms]
  show "d_tail_is_last (snd (d_addFirst l e))"
    by (rule d_abs_tail_is_last[OF d_abs_addFirst[OF ab]])
  show "d_tail_is_last (snd (d_addLast l e))"
    by (rule d_abs_tail_is_last[OF d_abs_addLast[OF ab]])
  show "d_tail_is_last (snd (d_addAfter l p e))" if v: "d_validate l p = Inr a" and "a \<in> set xs"
  proof -
    from that(2) obtain ys zs where s: "xs = ys @ a # zs" by (auto simp: in_set_conv_decomp)
    show ?thesis by (rule d_abs_tail_is_last[OF d_abs_addAfter[OF ab[unfolded s] v]])
  qed
  show "d_tail_is_last (snd (d_addBefore l p e))" if v: "d_validate l p = Inr a" and "a \<in> set xs"
  proof -
    from that(2) obtain ys zs where s: "xs = ys @ a # zs" by (auto simp: in_set_conv_decomp)
    show ?thesis by (rule d_abs_tail_is_last[OF d_abs_addBefore[OF ab[unfolded s] v]])
  qed
qed

lemma d_strict_tail:
  assumes "d_strict l xs"
  shows "d_tail_is_last l"
    "\<exists>xs. d_walk (d_store l) (d_head l) = Some xs \<and> (\<forall>p a. d_validate l p = Inr a \<longrightarrow> a \<in> set xs)"
proof -
  note d = d_strictD[OF assms]
  show "d_tail_is_last l" by (rule d_abs_tail_is_last[OF d(1)])
  show "\<exists>xs. d_walk (d_store l) (d_head l) = Some xs \<and> (\<forall>p a. d_validate l p = Inr a \<longrightarrow> a \<in> set xs)"
    using d_abs_walk[OF d(1)] d(3) by (auto simp: d_validate_Inr)
qed

text \<open>
  C9, as the code has it. In the singly linked list the tail is the last node reachable
  from the head in every state, so every insertion keeps it there. In the doubly linked
  list, in every state in which the tail is the last node reachable from the head,
  \<^verbatim>\<open>addFirst\<close> and \<^verbatim>\<open>addLast\<close> keep it there, and \<^verbatim>\<open>addAfter\<close> and \<^verbatim>\<open>addBefore\<close> keep it
  there when the position references a node reachable from the head. On a doubly linked
  list that was never cleared with \<^verbatim>\<open>instant = true\<close> the tail is the last node reachable
  from the head and every valid position references a node reachable from the head, so
  that every successful insertion keeps the tail there. In both variants and in every
  state \<^verbatim>\<open>addAfter\<close> on the position that \<^verbatim>\<open>getLast\<close> returns succeeds and updates the
  tail, and \<^verbatim>\<open>getLast\<close> then returns the position of the added element.
\<close>

theorem insertion_keeps_tail_last:
  assumes "s_run (SinglyLinkedList i els) sops = Some ls"
    and "d_run (DoublyLinkedList j els') dops = Some ld"
  shows
    "s_tail_is_last ls \<and>
     (\<forall>e. s_tail_is_last (snd (s_addFirst ls e))) \<and>
     (\<forall>e. s_tail_is_last (snd (s_addLast ls e))) \<and>
     (\<forall>p e. s_tail_is_last (snd (s_addAfter ls p e))) \<and>
     (\<forall>p e. s_getLast ls = Some p \<longrightarrow>
        (\<exists>q l'. s_addAfter ls p e = (Inr q, l') \<and> s_getLast l' = Some q \<and>
           s_element (s_store l' ! p_node q) = e \<and> q \<noteq> p)) \<and>
     (\<forall>xs. d_walk (d_store ld) (d_head ld) = Some xs \<and> d_tail ld = last_of None xs \<longrightarrow>
        (\<forall>e. d_tail_is_last (snd (d_addFirst ld e))) \<and>
        (\<forall>e. d_tail_is_last (snd (d_addLast ld e))) \<and>
        (\<forall>p e a. d_validate ld p = Inr a \<and> a \<in> set xs \<longrightarrow>
           d_tail_is_last (snd (d_addAfter ld p e)) \<and>
           d_tail_is_last (snd (d_addBefore ld p e)))) \<and>
     (D_clear True \<notin> set dops \<longrightarrow>
        d_tail_is_last ld \<and>
        (\<exists>xs. d_walk (d_store ld) (d_head ld) = Some xs \<and>
           (\<forall>p a. d_validate ld p = Inr a \<longrightarrow> a \<in> set xs))) \<and>
     (\<forall>p e. d_getLast ld = Some p \<longrightarrow>
        (\<exists>q l'. d_addAfter ld p e = (Inr q, l') \<and> d_getLast l' = Some q \<and>
           d_element (d_store l' ! p_node q) = e \<and> q \<noteq> p))"
proof -
  from s_reach_abs[OF assms(1)] obtain xs where xs: "s_abs ls xs" by blast
  note inv = d_reach_inv[OF assms(2)]
  have strict: "d_tail_is_last ld \<and>
        (\<exists>xs. d_walk (d_store ld) (d_head ld) = Some xs \<and>
           (\<forall>p a. d_validate ld p = Inr a \<longrightarrow> a \<in> set xs))" if "D_clear True \<notin> set dops"
    using d_reach_strict[OF assms(2) that] d_strict_tail by blast
  show ?thesis
    using s_insertions_keep_tail[OF xs] s_addAfter_last[OF xs]
      d_insertions_keep_tail[OF inv] d_addAfter_last[OF inv] strict
    by (intro conjI allI impI) blast+
qed

text \<open>
  The doubly linked list the claim fails on: the list \<open>[1]\<close>, its first position kept,
  \<^verbatim>\<open>clear(true)\<close>, \<^verbatim>\<open>addFirst(2)\<close>; the tail is the last node reachable from the head.
  \<^verbatim>\<open>addAfter\<close> on the kept position succeeds and moves the tail to the new node, which
  is not reachable from the head: iteration yields \<open>[2]\<close>, \<^verbatim>\<open>getLast\<close> the element 3.
\<close>

theorem insertion_keeps_tail_last_counterexample:
  "d_getFirst (DoublyLinkedList 0 [1::int]) = Some \<lparr>p_node = 0, p_container = 0\<rparr> \<and>
   d_run (DoublyLinkedList 0 [1::int]) [D_clear True, D_addFirst 2] =
     Some \<lparr>d_store = [\<lparr>d_element = 1, d_next = None, d_prev = None\<rparr>,
                      \<lparr>d_element = 2, d_next = None, d_prev = None\<rparr>],
           d_head = Some 1, d_tail = Some 1, d_size = 1, d_ident = 0\<rparr> \<and>
   d_tail_is_last
     \<lparr>d_store = [\<lparr>d_element = 1::int, d_next = None, d_prev = None\<rparr>,
                 \<lparr>d_element = 2, d_next = None, d_prev = None\<rparr>],
      d_head = Some 1, d_tail = Some 1, d_size = 1, d_ident = 0\<rparr> \<and>
   d_addAfter
     \<lparr>d_store = [\<lparr>d_element = 1::int, d_next = None, d_prev = None\<rparr>,
                 \<lparr>d_element = 2, d_next = None, d_prev = None\<rparr>],
      d_head = Some 1, d_tail = Some 1, d_size = 1, d_ident = 0\<rparr>
     \<lparr>p_node = 0, p_container = 0\<rparr> 3 =
     (Inr \<lparr>p_node = 2, p_container = 0\<rparr>,
      \<lparr>d_store = [\<lparr>d_element = 1, d_next = Some 2, d_prev = None\<rparr>,
                  \<lparr>d_element = 2, d_next = None, d_prev = None\<rparr>,
                  \<lparr>d_element = 3, d_next = None, d_prev = Some 0\<rparr>],
       d_head = Some 1, d_tail = Some 2, d_size = 2, d_ident = 0\<rparr>) \<and>
   \<not> d_tail_is_last
     \<lparr>d_store = [\<lparr>d_element = 1::int, d_next = Some 2, d_prev = None\<rparr>,
                 \<lparr>d_element = 2, d_next = None, d_prev = None\<rparr>,
                 \<lparr>d_element = 3, d_next = None, d_prev = Some 0\<rparr>],
      d_head = Some 1, d_tail = Some 2, d_size = 2, d_ident = 0\<rparr> \<and>
   d_iterator
     \<lparr>d_store = [\<lparr>d_element = 1::int, d_next = Some 2, d_prev = None\<rparr>,
                 \<lparr>d_element = 2, d_next = None, d_prev = None\<rparr>,
                 \<lparr>d_element = 3, d_next = None, d_prev = Some 0\<rparr>],
      d_head = Some 1, d_tail = Some 2, d_size = 2, d_ident = 0\<rparr> = Some [2]"
proof (intro conjI)
  show "d_getFirst (DoublyLinkedList 0 [1::int]) = Some \<lparr>p_node = 0, p_container = 0\<rparr>"
    by (simp add: DoublyLinkedList_def d_empty_def d_addLast_def d_insertBetween_def Let_def
        d_getFirst_def d_createPosition_def)
  show "d_run (DoublyLinkedList 0 [1::int]) [D_clear True, D_addFirst 2] =
     Some \<lparr>d_store = [\<lparr>d_element = 1, d_next = None, d_prev = None\<rparr>,
                      \<lparr>d_element = 2, d_next = None, d_prev = None\<rparr>],
           d_head = Some 1, d_tail = Some 1, d_size = 1, d_ident = 0\<rparr>"
    by (simp add: DoublyLinkedList_def d_empty_def d_addLast_def d_addFirst_def
        d_insertBetween_def Let_def d_clear_def)
  show "d_tail_is_last
     \<lparr>d_store = [\<lparr>d_element = 1::int, d_next = None, d_prev = None\<rparr>,
                 \<lparr>d_element = 2, d_next = None, d_prev = None\<rparr>],
      d_head = Some 1, d_tail = Some 1, d_size = 1, d_ident = 0\<rparr>"
    by (simp add: d_tail_is_last_def d_walk_Some)
  show "d_addAfter
     \<lparr>d_store = [\<lparr>d_element = 1::int, d_next = None, d_prev = None\<rparr>,
                 \<lparr>d_element = 2, d_next = None, d_prev = None\<rparr>],
      d_head = Some 1, d_tail = Some 1, d_size = 1, d_ident = 0\<rparr>
     \<lparr>p_node = 0, p_container = 0\<rparr> 3 =
     (Inr \<lparr>p_node = 2, p_container = 0\<rparr>,
      \<lparr>d_store = [\<lparr>d_element = 1, d_next = Some 2, d_prev = None\<rparr>,
                  \<lparr>d_element = 2, d_next = None, d_prev = None\<rparr>,
                  \<lparr>d_element = 3, d_next = None, d_prev = Some 0\<rparr>],
       d_head = Some 1, d_tail = Some 2, d_size = 2, d_ident = 0\<rparr>)"
    by (simp add: d_addAfter_def d_validate_def d_isDeprecated_def d_insertBetween_def Let_def
        d_createPosition_def)
  show "\<not> d_tail_is_last
     \<lparr>d_store = [\<lparr>d_element = 1::int, d_next = Some 2, d_prev = None\<rparr>,
                 \<lparr>d_element = 2, d_next = None, d_prev = None\<rparr>,
                 \<lparr>d_element = 3, d_next = None, d_prev = Some 0\<rparr>],
      d_head = Some 1, d_tail = Some 2, d_size = 2, d_ident = 0\<rparr>"
    by (simp add: d_tail_is_last_def d_walk_Some)
  show "d_iterator
     \<lparr>d_store = [\<lparr>d_element = 1::int, d_next = Some 2, d_prev = None\<rparr>,
                 \<lparr>d_element = 2, d_next = None, d_prev = None\<rparr>,
                 \<lparr>d_element = 3, d_next = None, d_prev = Some 0\<rparr>],
      d_head = Some 1, d_tail = Some 2, d_size = 2, d_ident = 0\<rparr> = Some [2]"
    by (simp add: d_iterator_def d_iterate_from_Some)
qed

lemmas s_eval = SinglyLinkedList_def s_empty_def s_addLast_def s_addFirst_def s_addAfter_def
  s_removeFirst_def s_replace_def s_getAfter_def s_getFirst_def s_getLast_def s_validate_def
  s_isDeprecated_def s_createPosition_def s_clear_def Let_def

lemmas d_eval = DoublyLinkedList_def d_empty_def d_addLast_def d_addFirst_def d_addAfter_def
  d_addBefore_def d_delete_def d_deleteNode_def d_insertBetween_def d_removeFirst_def
  d_removeLast_def d_replace_def d_getAfter_def d_getBefore_def d_getFirst_def d_getLast_def
  d_validate_def d_isDeprecated_def d_createPosition_def d_clear_def Let_def

theorem position_liveness_witness:
  "s_getFirst (SinglyLinkedList 0 [1, 2, 3::int]) = Some \<lparr>p_node = 0, p_container = 0\<rparr> \<and>
   (\<exists>l'. s_removeFirst (SinglyLinkedList 0 [1, 2, 3::int]) = (Inr 1, l') \<and>
      s_position_dead l' \<lparr>p_node = 0, p_container = 0\<rparr> \<and>
      s_validate l' \<lparr>p_node = 0, p_container = 0\<rparr> = Inl InvalidPosition \<and>
      s_validate l' \<lparr>p_node = 1, p_container = 0\<rparr> = Inr 1 \<and>
      fst (s_replace l' \<lparr>p_node = 1, p_container = 0\<rparr> 9) = Inr 2) \<and>
   d_validate (DoublyLinkedList 0 [1, 2, 3::int]) \<lparr>p_node = 1, p_container = 0\<rparr> = Inr 1 \<and>
   (\<exists>l'. d_delete (DoublyLinkedList 0 [1, 2, 3::int]) \<lparr>p_node = 1, p_container = 0\<rparr> = (Inr 2, l') \<and>
      d_position_dead l' \<lparr>p_node = 1, p_container = 0\<rparr> \<and>
      d_validate l' \<lparr>p_node = 1, p_container = 0\<rparr> = Inl InvalidPosition \<and>
      d_validate l' \<lparr>p_node = 2, p_container = 0\<rparr> = Inr 2 \<and>
      fst (d_replace l' \<lparr>p_node = 2, p_container = 0\<rparr> 9) = Inr 3)"
proof -
  let ?ls = "SinglyLinkedList 0 [1, 2, 3::int]" and ?ld = "DoublyLinkedList 0 [1, 2, 3::int]"
  let ?p0 = "\<lparr>p_node = 0, p_container = 0\<rparr>" and ?p1 = "\<lparr>p_node = 1, p_container = 0\<rparr>"
  let ?p2 = "\<lparr>p_node = 2, p_container = 0\<rparr>"
  have rs: "s_run ?ls [] = Some ?ls" and rd: "d_run ?ld [] = Some ?ld" by simp_all
  note t = position_liveness[OF rs rd]
  have gf: "s_getFirst ?ls = Some ?p0" by (simp add: s_eval)
  have v1: "s_validate ?ls ?p1 = Inr 1" by (simp add: s_eval)
  have e0: "s_element (s_store ?ls ! 0) = 1" "s_element (s_store ?ls ! 1) = 2" by (simp_all add: s_eval)
  from t gf obtain x l' where s: "s_removeFirst ?ls = (Inr x, l')"
    "x = s_element (s_store ?ls ! p_node ?p0)" "s_position_dead l' ?p0" "s_others_live ?ls l' ?p0"
    by blast
  have sd: "s_validate l' ?p0 = Inl InvalidPosition"
    using s(3) by (auto simp: s_position_dead_def dest: spec[of _ "[]"])
  have so: "s_validate l' ?p1 = Inr 1 \<and> fst (s_replace l' ?p1 9) = Inr 2"
    using s(4) v1 e0 by (auto simp: s_others_live_def)
  have dv: "d_validate ?ld ?p1 = Inr 1" "d_validate ?ld ?p2 = Inr 2" by (simp_all add: d_eval)
  have de: "d_element (d_store ?ld ! 1) = 2" "d_element (d_store ?ld ! 2) = 3" by (simp_all add: d_eval)
  from t dv(1) obtain y m' where d: "d_delete ?ld ?p1 = (Inr y, m')"
    "y = d_element (d_store ?ld ! p_node ?p1)" "d_position_dead m' ?p1" "d_others_live ?ld m' ?p1"
    by blast
  have dd: "d_validate m' ?p1 = Inl InvalidPosition"
    using d(3) by (auto simp: d_position_dead_def dest: spec[of _ "[]"])
  have do: "d_validate m' ?p2 = Inr 2 \<and> fst (d_replace m' ?p2 9) = Inr 3"
    using d(4) dv(2) de by (auto simp: d_others_live_def)
  show ?thesis
    using gf s(1,2,3) sd so e0 dv(1) d(1,2,3) dd do de by auto
qed

theorem failed_call_changes_nothing_witness:
  "fst (s_addAfter (SinglyLinkedList 0 [1::int]) \<lparr>p_node = 0, p_container = 7\<rparr> 5) = Inl InvalidPosition \<and>
   snd (s_addAfter (SinglyLinkedList 0 [1::int]) \<lparr>p_node = 0, p_container = 7\<rparr> 5) = SinglyLinkedList 0 [1] \<and>
   fst (s_removeFirst (SinglyLinkedList 0 ([] :: int list))) = Inl EmptyContainer \<and>
   snd (s_removeFirst (SinglyLinkedList 0 ([] :: int list))) = SinglyLinkedList 0 [] \<and>
   fst (d_delete (DoublyLinkedList 0 [1::int]) \<lparr>p_node = 0, p_container = 7\<rparr>) = Inl InvalidPosition \<and>
   snd (d_delete (DoublyLinkedList 0 [1::int]) \<lparr>p_node = 0, p_container = 7\<rparr>) = DoublyLinkedList 0 [1] \<and>
   fst (d_removeLast (DoublyLinkedList 0 ([] :: int list))) = Inl EmptyContainer \<and>
   snd (d_removeLast (DoublyLinkedList 0 ([] :: int list))) = DoublyLinkedList 0 []"
proof -
  let ?q = "\<lparr>p_node = 0, p_container = 7\<rparr>"
  have 1: "fst (s_addAfter (SinglyLinkedList 0 [1::int]) ?q 5) = Inl InvalidPosition"
    "fst (d_delete (DoublyLinkedList 0 [1::int]) ?q) = Inl InvalidPosition"
    by (simp_all add: s_eval d_eval)
  have 2: "fst (s_removeFirst (SinglyLinkedList 0 ([] :: int list))) = Inl EmptyContainer"
    "fst (d_removeLast (DoublyLinkedList 0 ([] :: int list))) = Inl EmptyContainer"
    by (simp_all add: s_eval d_eval)
  note a = failed_call_changes_nothing[where ls = "SinglyLinkedList 0 [1::int]" and p = ?q
      and e = 5 and err = InvalidPosition and ld = "DoublyLinkedList 0 [1::int]" and f = 5]
  note b = failed_call_changes_nothing[where ls = "SinglyLinkedList 0 ([] :: int list)" and p = ?q
      and e = 5 and err = EmptyContainer and ld = "DoublyLinkedList 0 ([] :: int list)" and f = 5]
  show ?thesis using 1 2 a b by simp
qed

theorem size_counts_live_nodes_witness:
  "(\<exists>l xs. s_run (SinglyLinkedList 0 [])
        [S_addFirst (1::int), S_addLast 2, S_removeFirst, S_addAfter \<lparr>p_node = 1, p_container = 0\<rparr> 5,
         S_addAfter \<lparr>p_node = 0, p_container = 0\<rparr> 6] = Some l \<and>
      s_walk (s_store l) (s_head l) = Some xs \<and>
      s_size l = int (length (filter (\<lambda>a. \<not> s_isDeprecated l a) xs)) \<and> s_size l = 2) \<and>
   (\<exists>l xs. d_run (DoublyLinkedList 0 [])
        [D_addFirst (1::int), D_addLast 2, D_addBefore \<lparr>p_node = 1, p_container = 0\<rparr> 5,
         D_delete \<lparr>p_node = 0, p_container = 0\<rparr>, D_removeLast, D_removeFirst, D_removeFirst] = Some l \<and>
      d_walk (d_store l) (d_head l) = Some xs \<and>
      d_size l = int (length (filter (\<lambda>a. \<not> d_isDeprecated l a) xs)) \<and> d_size l = 0)"
proof -
  let ?sops = "[S_addFirst (1::int), S_addLast 2, S_removeFirst, S_addAfter \<lparr>p_node = 1, p_container = 0\<rparr> 5,
         S_addAfter \<lparr>p_node = 0, p_container = 0\<rparr> 6]"
  let ?dops = "[D_addFirst (1::int), D_addLast 2, D_addBefore \<lparr>p_node = 1, p_container = 0\<rparr> 5,
         D_delete \<lparr>p_node = 0, p_container = 0\<rparr>, D_removeLast, D_removeFirst, D_removeFirst]"
  have c: "\<forall>op\<in>set ?sops. s_counting op" "\<forall>op\<in>set ?dops. d_counting op" by simp_all
  note t = size_counts_live_nodes[OF c, of 0 0]
  have s: "map_option s_size (s_run (SinglyLinkedList 0 []) ?sops) = Some 2"
    by (simp add: s_eval)
  have d: "map_option d_size (d_run (DoublyLinkedList 0 []) ?dops) = Some 0"
    by (simp add: d_eval)
  show ?thesis using t s d by auto
qed

theorem clear_modes_witness:
  "(\<exists>l'. s_clear (SinglyLinkedList 0 [1, 2::int]) False = Some l' \<and>
      s_size l' = 0 \<and> s_head l' = None \<and> s_tail l' = None \<and>
      s_isDeprecated l' 0 \<and> s_isDeprecated l' 1 \<and>
      s_position_dead l' \<lparr>p_node = 0, p_container = 0\<rparr> \<and>
      s_validate l' \<lparr>p_node = 1, p_container = 0\<rparr> = Inl InvalidPosition) \<and>
   s_clear (SinglyLinkedList 0 [1, 2::int]) True =
     Some ((SinglyLinkedList 0 [1, 2])\<lparr>s_tail := None, s_head := None, s_size := 0\<rparr>) \<and>
   \<not> s_isDeprecated ((SinglyLinkedList 0 [1, 2::int])\<lparr>s_tail := None, s_head := None, s_size := 0\<rparr>) 1 \<and>
   s_validate ((SinglyLinkedList 0 [1, 2::int])\<lparr>s_tail := None, s_head := None, s_size := 0\<rparr>)
     \<lparr>p_node = 1, p_container = 0\<rparr> = Inr 1 \<and>
   (\<exists>l'. d_clear (DoublyLinkedList 0 [1, 2::int]) False = Some l' \<and>
      d_size l' = 0 \<and> d_head l' = None \<and> d_tail l' = None \<and>
      d_isDeprecated l' 0 \<and> d_isDeprecated l' 1 \<and>
      d_position_dead l' \<lparr>p_node = 0, p_container = 0\<rparr> \<and>
      d_validate l' \<lparr>p_node = 1, p_container = 0\<rparr> = Inl InvalidPosition) \<and>
   d_clear (DoublyLinkedList 0 [1, 2::int]) True =
     Some ((DoublyLinkedList 0 [1, 2])\<lparr>d_tail := None, d_head := None, d_size := 0\<rparr>) \<and>
   \<not> d_isDeprecated ((DoublyLinkedList 0 [1, 2::int])\<lparr>d_tail := None, d_head := None, d_size := 0\<rparr>) 1 \<and>
   d_validate ((DoublyLinkedList 0 [1, 2::int])\<lparr>d_tail := None, d_head := None, d_size := 0\<rparr>)
     \<lparr>p_node = 1, p_container = 0\<rparr> = Inr 1"
proof -
  let ?ls = "SinglyLinkedList 0 [1, 2::int]" and ?ld = "DoublyLinkedList 0 [1, 2::int]"
  let ?p0 = "\<lparr>p_node = 0, p_container = 0\<rparr>" and ?p1 = "\<lparr>p_node = 1, p_container = 0\<rparr>"
  have rs: "s_run ?ls [] = Some ?ls" and rd: "d_run ?ld [] = Some ?ld" by simp_all
  note t = clear_modes[OF rs rd]
  have ws: "s_walk (s_store ?ls) (s_head ?ls) = Some [0, 1]" by (simp add: s_eval s_walk_Some)
  have wd: "d_walk (d_store ?ld) (d_head ?ld) = Some [0, 1]" by (simp add: d_eval d_walk_Some)
  have vs: "s_validate ?ls ?p1 = Inr 1" by (simp add: s_eval)
  have vd: "d_validate ?ld ?p1 = Inr 1" by (simp add: d_eval)
  from t ws obtain l' where s: "s_clear ?ls False = Some l'" "s_size l' = 0" "s_head l' = None"
    "s_tail l' = None" "\<forall>a\<in>set [0, 1]. s_isDeprecated l' a"
    "\<forall>p. p_node p \<in> set [0, 1] \<longrightarrow> s_position_dead l' p"
    "S_clear True \<notin> set [] \<longrightarrow>
       (\<forall>p. s_validate l' p = Inl InvalidPosition) \<and>
       (\<forall>p. p_node p < length (s_store ?ls) \<longrightarrow> s_position_dead l' p)"
    "s_clear ?ls True = Some (?ls\<lparr>s_tail := None, s_head := None, s_size := 0\<rparr>)"
    "\<forall>a\<in>set [0, 1]. \<not> s_isDeprecated (?ls\<lparr>s_tail := None, s_head := None, s_size := 0\<rparr>) a"
    "\<forall>p. s_validate (?ls\<lparr>s_tail := None, s_head := None, s_size := 0\<rparr>) p = s_validate ?ls p"
    by auto
  from t wd obtain m' where d: "d_clear ?ld False = Some m'" "d_size m' = 0" "d_head m' = None"
    "d_tail m' = None" "\<forall>a\<in>set [0, 1]. d_isDeprecated m' a"
    "\<forall>p. p_node p \<in> set [0, 1] \<longrightarrow> d_position_dead m' p"
    "D_clear True \<notin> set [] \<longrightarrow>
       (\<forall>p. d_validate m' p = Inl InvalidPosition) \<and>
       (\<forall>p. p_node p < length (d_store ?ld) \<longrightarrow> d_position_dead m' p)"
    "d_clear ?ld True = Some (?ld\<lparr>d_tail := None, d_head := None, d_size := 0\<rparr>)"
    "\<forall>a\<in>set [0, 1]. \<not> d_isDeprecated (?ld\<lparr>d_tail := None, d_head := None, d_size := 0\<rparr>) a"
    "\<forall>p. d_validate (?ld\<lparr>d_tail := None, d_head := None, d_size := 0\<rparr>) p = d_validate ?ld p"
    by auto
  have s': "s_isDeprecated l' 0" "s_isDeprecated l' 1" "s_position_dead l' ?p0"
    "s_validate l' ?p1 = Inl InvalidPosition"
    "\<not> s_isDeprecated (?ls\<lparr>s_tail := None, s_head := None, s_size := 0\<rparr>) 1"
    "s_validate (?ls\<lparr>s_tail := None, s_head := None, s_size := 0\<rparr>) ?p1 = Inr 1"
    using s(5,6,7,9,10) vs by simp_all
  have d': "d_isDeprecated m' 0" "d_isDeprecated m' 1" "d_position_dead m' ?p0"
    "d_validate m' ?p1 = Inl InvalidPosition"
    "\<not> d_isDeprecated (?ld\<lparr>d_tail := None, d_head := None, d_size := 0\<rparr>) 1"
    "d_validate (?ld\<lparr>d_tail := None, d_head := None, d_size := 0\<rparr>) ?p1 = Inr 1"
    using d(5,6,7,9,10) vd by simp_all
  show ?thesis
    using s(1,2,3,4,8) s' d(1,2,3,4,8) d' by (intro conjI exI[of _ l'] exI[of _ m'])
qed

theorem doubly_linked_symmetry_witness:
  "d_run (DoublyLinkedList 0 [1, 2, 3::int])
     [D_delete \<lparr>p_node = 1, p_container = 0\<rparr>, D_addBefore \<lparr>p_node = 2, p_container = 0\<rparr> 7] =
     Some \<lparr>d_store = [\<lparr>d_element = 1, d_next = Some 3, d_prev = None\<rparr>,
                      \<lparr>d_element = 2, d_next = Some 1, d_prev = Some 1\<rparr>,
                      \<lparr>d_element = 3, d_next = None, d_prev = Some 3\<rparr>,
                      \<lparr>d_element = 7, d_next = Some 2, d_prev = Some 0\<rparr>],
           d_head = Some 0, d_tail = Some 2, d_size = 3, d_ident = 0\<rparr> \<and>
   d_prev (d_store \<lparr>d_store = [\<lparr>d_element = 1::int, d_next = Some 3, d_prev = None\<rparr>,
                      \<lparr>d_element = 2, d_next = Some 1, d_prev = Some 1\<rparr>,
                      \<lparr>d_element = 3, d_next = None, d_prev = Some 3\<rparr>,
                      \<lparr>d_element = 7, d_next = Some 2, d_prev = Some 0\<rparr>],
           d_head = Some 0, d_tail = Some 2, d_size = 3, d_ident = 0\<rparr> ! 3) = Some 0 \<and>
   d_next (d_store \<lparr>d_store = [\<lparr>d_element = 1::int, d_next = Some 3, d_prev = None\<rparr>,
                      \<lparr>d_element = 2, d_next = Some 1, d_prev = Some 1\<rparr>,
                      \<lparr>d_element = 3, d_next = None, d_prev = Some 3\<rparr>,
                      \<lparr>d_element = 7, d_next = Some 2, d_prev = Some 0\<rparr>],
           d_head = Some 0, d_tail = Some 2, d_size = 3, d_ident = 0\<rparr> ! 3) = Some 2 \<and>
   d_walk [\<lparr>d_element = 1::int, d_next = Some 3, d_prev = None\<rparr>,
           \<lparr>d_element = 2, d_next = Some 1, d_prev = Some 1\<rparr>,
           \<lparr>d_element = 3, d_next = None, d_prev = Some 3\<rparr>,
           \<lparr>d_element = 7, d_next = Some 2, d_prev = Some 0\<rparr>] (Some 0) = Some [0, 3, 2]"
proof -
  let ?l = "\<lparr>d_store = [\<lparr>d_element = 1::int, d_next = Some 3, d_prev = None\<rparr>,
                      \<lparr>d_element = 2, d_next = Some 1, d_prev = Some 1\<rparr>,
                      \<lparr>d_element = 3, d_next = None, d_prev = Some 3\<rparr>,
                      \<lparr>d_element = 7, d_next = Some 2, d_prev = Some 0\<rparr>],
           d_head = Some 0, d_tail = Some 2, d_size = 3, d_ident = 0\<rparr>"
  have r: "d_run (DoublyLinkedList 0 [1, 2, 3::int])
     [D_delete \<lparr>p_node = 1, p_container = 0\<rparr>, D_addBefore \<lparr>p_node = 2, p_container = 0\<rparr> 7] = Some ?l"
    by (simp add: d_eval)
  note t = doubly_linked_symmetry[OF r]
  have a: "0 < length (d_store ?l) \<and> \<not> d_isDeprecated ?l 0 \<and> d_next (d_store ?l ! 0) = Some 3"
    by (simp add: d_isDeprecated_def)
  have b: "3 < length (d_store ?l) \<and> \<not> d_isDeprecated ?l 3 \<and> d_next (d_store ?l ! 3) = Some 2"
    by (simp add: d_isDeprecated_def)
  from t a have 1: "d_prev (d_store ?l ! 3) = Some 0" by blast
  have 2: "d_next (d_store ?l ! 3) = Some 2" using b by blast
  have 3: "d_walk (d_store ?l) (Some 0) = Some [0, 3, 2]" by (simp add: d_walk_Some)
  show ?thesis using r 1 2 3 by simp
qed

theorem insertion_keeps_tail_last_witness:
  "s_tail_is_last (SinglyLinkedList 0 [1, 2::int]) \<and>
   s_tail_is_last (snd (s_addAfter (SinglyLinkedList 0 [1, 2::int]) \<lparr>p_node = 0, p_container = 0\<rparr> 5)) \<and>
   s_getLast (SinglyLinkedList 0 [1, 2::int]) = Some \<lparr>p_node = 1, p_container = 0\<rparr> \<and>
   (\<exists>q l'. s_addAfter (SinglyLinkedList 0 [1, 2::int]) \<lparr>p_node = 1, p_container = 0\<rparr> 5 = (Inr q, l') \<and>
      s_getLast l' = Some q \<and> s_element (s_store l' ! p_node q) = 5) \<and>
   d_walk (d_store (DoublyLinkedList 0 [1, 2::int])) (d_head (DoublyLinkedList 0 [1, 2::int])) = Some [0, 1] \<and>
   d_tail (DoublyLinkedList 0 [1, 2::int]) = last_of None [0, 1] \<and>
   d_validate (DoublyLinkedList 0 [1, 2::int]) \<lparr>p_node = 0, p_container = 0\<rparr> = Inr 0 \<and>
   d_tail_is_last (snd (d_addFirst (DoublyLinkedList 0 [1, 2::int]) 5)) \<and>
   d_tail_is_last (snd (d_addAfter (DoublyLinkedList 0 [1, 2::int]) \<lparr>p_node = 0, p_container = 0\<rparr> 5)) \<and>
   d_tail_is_last (snd (d_addBefore (DoublyLinkedList 0 [1, 2::int]) \<lparr>p_node = 0, p_container = 0\<rparr> 5)) \<and>
   d_tail_is_last (DoublyLinkedList 0 [1, 2::int]) \<and>
   d_getLast (DoublyLinkedList 0 [1, 2::int]) = Some \<lparr>p_node = 1, p_container = 0\<rparr> \<and>
   (\<exists>q l'. d_addAfter (DoublyLinkedList 0 [1, 2::int]) \<lparr>p_node = 1, p_container = 0\<rparr> 5 = (Inr q, l') \<and>
      d_getLast l' = Some q \<and> d_element (d_store l' ! p_node q) = 5)"
proof -
  let ?ls = "SinglyLinkedList 0 [1, 2::int]" and ?ld = "DoublyLinkedList 0 [1, 2::int]"
  let ?p0 = "\<lparr>p_node = 0, p_container = 0\<rparr>" and ?p1 = "\<lparr>p_node = 1, p_container = 0\<rparr>"
  have rs: "s_run ?ls [] = Some ?ls" and rd: "d_run ?ld [] = Some ?ld" by simp_all
  note t = insertion_keeps_tail_last[OF rs rd]
  have gs: "s_getLast ?ls = Some ?p1" by (simp add: s_eval)
  have gd: "d_getLast ?ld = Some ?p1" by (simp add: d_eval)
  have wd: "d_walk (d_store ?ld) (d_head ?ld) = Some [0, 1]" by (simp add: d_eval d_walk_Some)
  have td: "d_tail ?ld = last_of None [0, 1]" by (simp add: d_eval last_of_def)
  have vd: "d_validate ?ld ?p0 = Inr 0" by (simp add: d_eval)
  have nc: "D_clear True \<notin> set []" by simp
  have 1: "s_tail_is_last ?ls" "s_tail_is_last (snd (s_addAfter ?ls ?p0 5))"
    using t by blast+
  have 2: "\<exists>q l'. s_addAfter ?ls ?p1 5 = (Inr q, l') \<and> s_getLast l' = Some q \<and>
      s_element (s_store l' ! p_node q) = 5"
    using t gs by blast
  have 3: "d_tail_is_last (snd (d_addFirst ?ld 5))" using t wd td by blast
  have 4: "d_tail_is_last (snd (d_addAfter ?ld ?p0 5))" "d_tail_is_last (snd (d_addBefore ?ld ?p0 5))"
    using t wd td vd by (simp, metis list.set_intros(1))+
  have 5: "d_tail_is_last ?ld" using t nc by blast
  have 6: "\<exists>q l'. d_addAfter ?ld ?p1 5 = (Inr q, l') \<and> d_getLast l' = Some q \<and>
      d_element (d_store l' ! p_node q) = 5"
    using t gd by blast
  show ?thesis using 1 2 3 4 5 6 gs gd wd td vd by (intro conjI)
qed


section \<open>Quick select with a comparator that is not reflexive\<close>

lemma all_less_never_returns:
  "quickSelect_loop (\<lambda>a b. LESS) rnd k [1, 2::int] 1 = None"
proof -
  have "\<not> (compare = (\<lambda>a b. LESS) \<and> length arr = 2 \<and> n = 1)"
    if r: "quickSelect_loop compare rnd k arr n = Some y"
    for compare :: "int IComparator" and rnd k arr n y
  proof (rule quickSelect_loop.raw_induct
      [where P = "\<lambda>(c :: int IComparator) r k a n y. \<not> (c = (\<lambda>a b. LESS) \<and> length a = 2 \<and> n = 1)",
        OF _ r])
    fix f and c :: "int IComparator" and r k a n y
    assume ih: "\<And>c r k a n y. f c r k a n = Some y \<Longrightarrow>
        \<not> (c = (\<lambda>a b. LESS) \<and> length a = 2 \<and> n = 1)"
      and body: "(if 1 < length a
        then let pivot = a ! (r k mod length a);
                 less = filter (\<lambda>item. c item pivot = LESS) a;
                 equal = filter (\<lambda>item. c item pivot \<noteq> LESS \<and> c item pivot \<noteq> GREATER) a;
                 greater = filter (\<lambda>item. c item pivot \<noteq> LESS \<and> c item pivot = GREATER) a
             in if n \<le> int (length less) then f c r (k + 1) less n
                else if n \<le> int (length less) + int (length equal) then Some (Some pivot)
                else f c r (k + 1) greater (n - (int (length less) + int (length equal)))
        else Some (js_index a 0)) = Some y"
    show "\<not> (c = (\<lambda>a b. LESS) \<and> length a = 2 \<and> n = 1)"
    proof
      assume a: "c = (\<lambda>a b. LESS) \<and> length a = 2 \<and> n = 1"
      then have "f c r (k + 1) a n = Some y" using body by (simp add: Let_def)
      from ih[OF this] a show False by simp
    qed
  qed
  note never = this
  show ?thesis
  proof (cases "quickSelect_loop (\<lambda>a b. LESS) rnd k [1, 2::int] 1")
    case None
    then show ?thesis .
  next
    case (Some y)
    from never[OF Some] show ?thesis by simp
  qed
qed

text \<open>
  With the comparator that answers \<^verbatim>\<open>LESS\<close> to every pair, \<^verbatim>\<open>less\<close> is the whole array
  in every round: on \<open>[1, 2]\<close> with \<open>n = 0\<close>, which is within the bounds, the loop never
  returns, whatever pivots are drawn.
\<close>

theorem quickSelect_counterexample:
  "quickSelect [1, 2::int] 0 (\<lambda>a b. LESS) (\<lambda>k. 0) = None \<and>
   quickSelect [1, 2::int] 0 (\<lambda>a b. LESS) (\<lambda>k. k) = None"
  by (simp add: quickSelect_def all_less_never_returns)

end
